theory Spec2Isabelle
  imports Main "HOL-Library.Signed_Division"
begin

section \<open>The ring-buffer queue of queue.h\<close>

text \<open>
  The class \<open>Queue<ValueType>\<close> of \<^verbatim>\<open>src/StanfordCPPLib/queue.h\<close> keeps a
  \<open>Vector<ValueType> ringBuffer\<close> and four \<open>int\<close> fields. Every method that can
  change the object is a function from the object's state to a result and the state
  it leaves behind; \<open>error(msg)\<close> throws, so a failing call is the value
  \<open>Inl (ErrorException msg)\<close> together with the state at the moment of the throw.

  The operator \<open>%\<close> truncates towards zero: it is \<open>smod\<close>; a zero divisor,
  undefined in C++, does not occur in a well-formed queue.
\<close>

subsection \<open>The type \<open>int\<close>\<close>

text \<open>
  The fields \<open>count\<close>, \<open>capacity\<close>, \<open>head\<close> and \<open>tail\<close> are of the C++ type
  \<open>int\<close>, of 32 bits, and signed overflow is undefined: the program has no behaviour
  from there on. The model keeps the fields as integers and checks the range where a
  well-formed queue whose fields are of type \<open>int\<close> can leave it, which is in two
  places: \<open>2 * capacity\<close> in \<open>expandRingBufferCapacity\<close> and \<open>tail + capacity\<close> in
  \<open>back\<close>. There a result outside the range ends the call with \<open>SignedOverflow\<close>,
  which stands for the undefined behaviour, not for an exception a client could catch.
  The other sums, \<open>head + 1\<close>, \<open>tail + 1\<close>, \<open>count + 1\<close> and, once \<open>2 * capacity\<close> has
  passed the check, \<open>head + i\<close>, are at most the capacity or below twice the capacity
  in a well-formed queue. The theorems on calls that can grow the vector carry a bound
  under which no call ends with \<open>SignedOverflow\<close>.
\<close>

definition INT_MAX :: int where
  "INT_MAX = 2147483647"

definition INT_MIN :: int where
  "INT_MIN = - 2147483648"

definition in_int :: "int \<Rightarrow> bool" where
  "in_int x \<longleftrightarrow> INT_MIN \<le> x \<and> x \<le> INT_MAX"

subsection \<open>Errors and the backing vector\<close>

datatype error = ErrorException string | VectorIndexError | SignedOverflow

text \<open>
  Modelled from the spec: \<^verbatim>\<open>vector.h\<close> is not among the sources. The spec calls
  the store a sequential container of length \<open>capacity\<close> with value semantics, whose
  copies are deep. \<open>Vector<ValueType>(n)\<close> holds \<open>n\<close> value-initialised
  elements; the value \<open>ValueType()\<close> is the parameter \<open>dv\<close> of the functions that
  allocate. An index outside the vector is an error of the vector, kept apart from the
  queue's own errors as \<open>VectorIndexError\<close>.
\<close>

definition Vector :: "int \<Rightarrow> 'a \<Rightarrow> 'a list" where
  "Vector n dv = replicate (nat n) dv"

definition vec_get :: "'a list \<Rightarrow> int \<Rightarrow> error + 'a" where
  "vec_get v i = (if 0 \<le> i \<and> i < int (length v) then Inr (v ! nat i) else Inl VectorIndexError)"

definition vec_set :: "'a list \<Rightarrow> int \<Rightarrow> 'a \<Rightarrow> error + 'a list" where
  "vec_set v i x = (if 0 \<le> i \<and> i < int (length v) then Inr (v[nat i := x]) else Inl VectorIndexError)"

subsection \<open>The object and its methods\<close>

record 'a queue =
  ringBuffer :: "'a list"
  count :: int
  capacity :: int
  head :: int
  tail :: int

definition INITIAL_CAPACITY :: int where
  "INITIAL_CAPACITY = 10"

definition clear :: "'a \<Rightarrow> 'a queue \<Rightarrow> 'a queue" where
  "clear dv q =
     (let q = q\<lparr>capacity := INITIAL_CAPACITY\<rparr>;
          q = q\<lparr>ringBuffer := Vector (capacity q) dv\<rparr>;
          q = q\<lparr>head := 0\<rparr>;
          q = q\<lparr>tail := 0\<rparr>
      in q\<lparr>count := 0\<rparr>)"

text \<open>The constructor \<open>Queue()\<close> only calls \<open>clear\<close>; before it the fields hold nothing.\<close>

definition Queue :: "'a \<Rightarrow> 'a queue" where
  "Queue dv = clear dv \<lparr>ringBuffer = [], count = 0, capacity = 0, head = 0, tail = 0\<rparr>"

definition isEmpty :: "'a queue \<Rightarrow> bool" where
  "isEmpty q = (count q = 0)"

definition size_queue :: "'a queue \<Rightarrow> int" where
  "size_queue q = count q"

text \<open>
  \<open>front\<close> and \<open>back\<close> return a reference to an element of the vector; the model
  returns the element the reference is bound to. \<open>back\<close> is named \<open>back_queue\<close> and
  \<open>size\<close> is named \<open>size_queue\<close>, since the plain names are taken.
\<close>

definition back_queue :: "'a queue \<Rightarrow> (error + 'a) \<times> 'a queue" where
  "back_queue q =
     (if count q = 0
      then (Inl (ErrorException ''Queue::back: Attempting to read back of an empty queue''), q)
      else if \<not> (in_int (tail q + capacity q) \<and> in_int (tail q + capacity q - 1))
      then (Inl SignedOverflow, q)
      else (vec_get (ringBuffer q) ((tail q + capacity q - 1) smod capacity q), q))"

definition front :: "'a queue \<Rightarrow> (error + 'a) \<times> 'a queue" where
  "front q =
     (if count q = 0
      then (Inl (ErrorException ''Queue::front: Attempting to read front of an empty queue''), q)
      else (vec_get (ringBuffer q) (head q), q))"

definition peek :: "'a queue \<Rightarrow> (error + 'a) \<times> 'a queue" where
  "peek q =
     (if count q = 0
      then (Inl (ErrorException ''Queue::peek: Attempting to peek at an empty queue''), q)
      else (vec_get (ringBuffer q) (head q), q))"

definition dequeue :: "'a queue \<Rightarrow> (error + 'a) \<times> 'a queue" where
  "dequeue q =
     (if count q = 0
      then (Inl (ErrorException ''Queue::dequeue: Attempting to dequeue an empty queue''), q)
      else (case vec_get (ringBuffer q) (head q) of
              Inl e \<Rightarrow> (Inl e, q)
            | Inr result \<Rightarrow>
                (Inr result, q\<lparr>head := (head q + 1) smod capacity q, count := count q - 1\<rparr>)))"

text \<open>
  The loop of \<open>expandRingBufferCapacity\<close>, from the value \<open>i\<close> of its counter; \<open>copy\<close>
  is the old vector. It stops at the first vector error, leaving the new vector as far
  as it was filled.
\<close>

function expand_loop :: "'a list \<Rightarrow> int \<Rightarrow> 'a queue \<Rightarrow> (error + unit) \<times> 'a queue" where
  "expand_loop copy i q =
     (if i < count q
      then (case vec_get copy ((head q + i) smod capacity q) of
              Inl e \<Rightarrow> (Inl e, q)
            | Inr x \<Rightarrow>
                (case vec_set (ringBuffer q) i x of
                   Inl e \<Rightarrow> (Inl e, q)
                 | Inr rb \<Rightarrow> expand_loop copy (i + 1) (q\<lparr>ringBuffer := rb\<rparr>)))
      else (Inr (), q))"
  by pat_completeness auto
termination
  by (relation "measure (\<lambda>(copy, i, q). nat (count q - i))") auto

declare expand_loop.simps [simp del]

definition expandRingBufferCapacity :: "'a \<Rightarrow> 'a queue \<Rightarrow> (error + unit) \<times> 'a queue" where
  "expandRingBufferCapacity dv q =
     (let copy = ringBuffer q
      in if \<not> in_int (2 * capacity q) then (Inl SignedOverflow, q)
         else (let q = q\<lparr>ringBuffer := Vector (2 * capacity q) dv\<rparr>
               in case expand_loop copy 0 q of
                    (Inl e, q) \<Rightarrow> (Inl e, q)
                  | (Inr u, q) \<Rightarrow>
                      (let q = q\<lparr>head := 0\<rparr>;
                           q = q\<lparr>tail := count q\<rparr>
                       in (Inr (), q\<lparr>capacity := capacity q * 2\<rparr>))))"

definition enqueue :: "'a \<Rightarrow> 'a \<Rightarrow> 'a queue \<Rightarrow> (error + unit) \<times> 'a queue" where
  "enqueue dv v q =
     (case (if count q \<ge> capacity q - 1 then expandRingBufferCapacity dv q else (Inr (), q)) of
        (Inl e, q) \<Rightarrow> (Inl e, q)
      | (Inr u, q) \<Rightarrow>
          (case vec_set (ringBuffer q) (tail q) v of
             Inl e \<Rightarrow> (Inl e, q)
           | Inr rb \<Rightarrow>
               (Inr (), q\<lparr>ringBuffer := rb, tail := (tail q + 1) smod capacity q,
                           count := count q + 1\<rparr>)))"

subsection \<open>Objects in a store: copies, \<open>equals\<close> and the exports\<close>

text \<open>
  \<open>equals\<close> compares addresses (\<open>this == &queue2\<close>) and, like \<open>operator <<\<close> and
  \<open>toStlQueue\<close>, works on local copies that it drains. To say which object a call
  changes, the objects live in a store, a list of queue states addressed by position.
  A local variable is a new object at the end of the store; it is destroyed, on return
  and on a throw alike, by cutting the store back to its length at the call. The
  copy constructor of \<open>Queue\<close> is the implicit member-wise one, and copying the vector
  copies its elements.
\<close>

type_synonym 'a store = "'a queue list"

definition dequeue_at :: "nat \<Rightarrow> 'a store \<Rightarrow> (error + 'a) \<times> 'a store" where
  "dequeue_at p s = (case dequeue (s ! p) of (r, q) \<Rightarrow> (r, s[p := q]))"

text \<open>
  The loop of \<open>equals\<close>. The element type's \<open>==\<close> is equality of values; of the two
  calls of \<open>dequeue\<close> in the comparison, the one on \<open>copy1\<close> is taken first.
\<close>

partial_function (option) equals_loop ::
  "nat \<Rightarrow> nat \<Rightarrow> 'a store \<Rightarrow> ((error + bool) \<times> 'a store) option" where
  "equals_loop copy1 copy2 s =
     (if \<not> isEmpty (s ! copy1) \<and> \<not> isEmpty (s ! copy2)
      then (case dequeue_at copy1 s of
              (Inl e, s) \<Rightarrow> Some (Inl e, s)
            | (Inr x, s) \<Rightarrow>
                (case dequeue_at copy2 s of
                   (Inl e, s) \<Rightarrow> Some (Inl e, s)
                 | (Inr y, s) \<Rightarrow>
                     if \<not> (x = y) then Some (Inr False, s) else equals_loop copy1 copy2 s))
      else Some (Inr (isEmpty (s ! copy1) = isEmpty (s ! copy2)), s))"

declare equals_loop.simps [code]

definition equals :: "'a store \<Rightarrow> nat \<Rightarrow> nat \<Rightarrow> ((error + bool) \<times> 'a store) option" where
  "equals s this queue2 =
     (if this = queue2 then Some (Inr True, s)
      else if size_queue (s ! this) \<noteq> size_queue (s ! queue2) then Some (Inr False, s)
      else (let copy1 = length s; s1 = s @ [s ! this];
                copy2 = length s1; s2 = s1 @ [s ! queue2]
            in case equals_loop copy1 copy2 s2 of
                 None \<Rightarrow> None
               | Some (r, s3) \<Rightarrow> Some (r, take (length s) s3)))"

text \<open>\<open>operator ==\<close> and \<open>operator !=\<close>.\<close>

definition operator_eq :: "'a store \<Rightarrow> nat \<Rightarrow> nat \<Rightarrow> ((error + bool) \<times> 'a store) option" where
  "operator_eq s this queue2 = equals s this queue2"

definition operator_ne :: "'a store \<Rightarrow> nat \<Rightarrow> nat \<Rightarrow> ((error + bool) \<times> 'a store) option" where
  "operator_ne s this queue2 =
     (case equals s this queue2 of
        None \<Rightarrow> None
      | Some (Inl e, s) \<Rightarrow> Some (Inl e, s)
      | Some (Inr b, s) \<Rightarrow> Some (Inr (\<not> b), s))"

text \<open>
  \<open>toStlQueue\<close> fills a \<open>std::queue\<close>, which is a list here, front first; \<open>push\<close>
  appends. The member \<open>toStlDeque\<close> has no model: it is declared to return a
  \<open>std::queue<ValueType>\<close> and its body returns a \<open>std::deque<ValueType>\<close>, and
  \<open>std::queue\<close> is constructed from its container only explicitly, so the member
  cannot be instantiated and no call of it exists.
\<close>

partial_function (option) toStlQueue_loop ::
  "nat \<Rightarrow> 'a list \<Rightarrow> 'a store \<Rightarrow> ((error + 'a list) \<times> 'a store) option" where
  "toStlQueue_loop copy result s =
     (if \<not> isEmpty (s ! copy)
      then (case dequeue_at copy s of
              (Inl e, s) \<Rightarrow> Some (Inl e, s)
            | (Inr x, s) \<Rightarrow> toStlQueue_loop copy (result @ [x]) s)
      else Some (Inr result, s))"

declare toStlQueue_loop.simps [code]

definition toStlQueue :: "'a store \<Rightarrow> nat \<Rightarrow> ((error + 'a list) \<times> 'a store) option" where
  "toStlQueue s this =
     (let result = []; copy = length s; s1 = s @ [s ! this]
      in case toStlQueue_loop copy result s1 of
           None \<Rightarrow> None
         | Some (r, s2) \<Rightarrow> Some (r, take (length s) s2))"

subsection \<open>Writing a queue\<close>

text \<open>
  \<open>operator <<\<close> appends to the output stream \<open>os\<close>, a string. The formatter
  \<open>writeGenericValue(os, v, true)\<close> is not among the sources: it is the parameter
  \<open>writeGenericValue\<close>, the text it writes for a value.
\<close>

function write_loop ::
  "('a \<Rightarrow> string) \<Rightarrow> int \<Rightarrow> int \<Rightarrow> nat \<Rightarrow> string \<Rightarrow> 'a store \<Rightarrow> error option \<times> string \<times> 'a store" where
  "write_loop writeGenericValue len i copy os s =
     (if i < len
      then (let os = (if i > 0 then os @ '', '' else os)
            in case dequeue_at copy s of
                 (Inl e, s) \<Rightarrow> (Some e, os, s)
               | (Inr x, s) \<Rightarrow>
                   write_loop writeGenericValue len (i + 1) copy (os @ writeGenericValue x) s)
      else (None, os, s))"
  by pat_completeness auto
termination
  by (relation "measure (\<lambda>(w, len, i, copy, os, s). nat (len - i))") auto

declare write_loop.simps [simp del]

definition operator_shl ::
  "('a \<Rightarrow> string) \<Rightarrow> string \<Rightarrow> 'a store \<Rightarrow> nat \<Rightarrow> error option \<times> string \<times> 'a store" where
  "operator_shl writeGenericValue os s queue =
     (let os = os @ ''{'';
          copy = length s; s1 = s @ [s ! queue];
          len = size_queue (s1 ! queue)
      in case write_loop writeGenericValue len 0 copy os s1 of
           (Some e, os, s2) \<Rightarrow> (Some e, os, take (length s) s2)
         | (None, os, s2) \<Rightarrow> (None, os @ ''}'', take (length s) s2))"

definition toString :: "('a \<Rightarrow> string) \<Rightarrow> 'a store \<Rightarrow> nat \<Rightarrow> (error + string) \<times> 'a store" where
  "toString writeGenericValue s this =
     (let os = []
      in case operator_shl writeGenericValue os s this of
           (Some e, os, s) \<Rightarrow> (Inl e, s)
         | (None, os, s) \<Rightarrow> (Inr os, s))"

subsection \<open>Reading a queue\<close>

text \<open>
  The input stream of \<open>operator >>\<close> is the text, the position of the next character
  and one flag for a failed stream: once it is set nothing is extracted any more.
  \<open>is >> ch\<close> skips white space and takes one character; at the end of the text it
  sets the flag and leaves \<open>ch\<close> as it was. \<open>is.unget()\<close> steps back over the character
  taken last, and does nothing to a failed stream.
\<close>

record istream =
  chars :: string
  pos :: nat
  failbit :: bool

definition isspace :: "char \<Rightarrow> bool" where
  "isspace c \<longleftrightarrow> c \<in> set [CHR '' '', CHR 0x09, CHR 0x0A, CHR 0x0B, CHR 0x0C, CHR 0x0D]"

definition extract_char :: "char \<Rightarrow> istream \<Rightarrow> char \<times> istream" where
  "extract_char ch is =
     (if failbit is then (ch, is)
      else (case dropWhile isspace (drop (pos is) (chars is)) of
              [] \<Rightarrow> (ch, is\<lparr>pos := length (chars is), failbit := True\<rparr>)
            | c # rest \<Rightarrow> (c, is\<lparr>pos := length (chars is) - length rest\<rparr>)))"

definition unget :: "istream \<Rightarrow> istream" where
  "unget is =
     (if failbit is then is
      else if pos is = 0 then is\<lparr>failbit := True\<rparr>
      else is\<lparr>pos := pos is - 1\<rparr>)"

text \<open>
  The reader \<open>readGenericValue(is, value)\<close> is not among the sources: it is the
  parameter \<open>readGenericValue\<close>, which from a stream gives the value it leaves in
  \<open>value\<close>, or the error it throws, and the stream after it. The loop of
  \<open>operator >>\<close> has no bound of its own, so its model may give no result at all.
\<close>

partial_function (option) read_loop ::
  "(istream \<Rightarrow> (error + 'a) \<times> istream) \<Rightarrow> 'a \<Rightarrow> char \<Rightarrow> istream \<Rightarrow> 'a queue \<Rightarrow>
     (error option \<times> istream \<times> 'a queue) option" where
  "read_loop readGenericValue dv ch is queue =
     (case readGenericValue is of
        (Inl e, is) \<Rightarrow> Some (Some e, is, queue)
      | (Inr v, is) \<Rightarrow>
          (case enqueue dv v queue of
             (Inl e, queue) \<Rightarrow> Some (Some e, is, queue)
           | (Inr u, queue) \<Rightarrow>
               (case extract_char ch is of
                  (ch, is) \<Rightarrow>
                    if ch = CHR ''}'' then Some (None, is, queue)
                    else if ch \<noteq> CHR '',''
                    then Some (Some (ErrorException
                                 (''Queue::operator >>: Unexpected character '' @ [ch])), is, queue)
                    else read_loop readGenericValue dv ch is queue)))"

declare read_loop.simps [code]

definition operator_shr ::
  "(istream \<Rightarrow> (error + 'a) \<times> istream) \<Rightarrow> 'a \<Rightarrow> istream \<Rightarrow> 'a queue \<Rightarrow>
     (error option \<times> istream \<times> 'a queue) option" where
  "operator_shr readGenericValue dv is queue =
     (let ch = CHR 0x00
      in case extract_char ch is of
           (ch, is) \<Rightarrow>
             if ch \<noteq> CHR ''{''
             then Some (Some (ErrorException ''Queue::operator >>: Missing {''), is, queue)
             else (let queue = clear dv queue
                   in case extract_char ch is of
                        (ch, is) \<Rightarrow>
                          if ch \<noteq> CHR ''}''
                          then (let is = unget is
                                in read_loop readGenericValue dv ch is queue)
                          else Some (None, is, queue)))"

definition istringstream :: "string \<Rightarrow> istream" where
  "istringstream str = \<lparr>chars = str, pos = 0, failbit = False\<rparr>"

subsection \<open>Sequences of calls\<close>

text \<open>
  A client that enqueues the values of a list, one after the other, and one that
  dequeues \<open>n\<close> times and collects what it gets; both stop at the first error.
\<close>

fun enqueue_all :: "'a \<Rightarrow> 'a list \<Rightarrow> 'a queue \<Rightarrow> (error + unit) \<times> 'a queue" where
  "enqueue_all dv [] q = (Inr (), q)"
| "enqueue_all dv (v # vs) q =
     (case enqueue dv v q of
        (Inl e, q) \<Rightarrow> (Inl e, q)
      | (Inr u, q) \<Rightarrow> enqueue_all dv vs q)"

fun dequeue_n :: "nat \<Rightarrow> 'a queue \<Rightarrow> (error + 'a list) \<times> 'a queue" where
  "dequeue_n 0 q = (Inr [], q)"
| "dequeue_n (Suc n) q =
     (case dequeue q of
        (Inl e, q) \<Rightarrow> (Inl e, q)
      | (Inr x, q) \<Rightarrow>
          (case dequeue_n n q of
             (Inl e, q) \<Rightarrow> (Inl e, q)
           | (Inr xs, q) \<Rightarrow> (Inr (x # xs), q)))"








subsection \<open>The text of a queue, and an element type that can be written and read back\<close>

text \<open>
  The text the spec gives for a queue: the texts of the elements, oldest first, with
  a comma and a space between neighbours.
\<close>

fun join_comma :: "string list \<Rightarrow> string" where
  "join_comma [] = []"
| "join_comma [t] = t"
| "join_comma (t # u # ts) = t @ '', '' @ join_comma (u # ts)"

definition spec_text :: "('a \<Rightarrow> string) \<Rightarrow> 'a list \<Rightarrow> string" where
  "spec_text writeGenericValue xs = ''{'' @ join_comma (map writeGenericValue xs) @ ''}''"

text \<open>
  What the round trip needs of the formatter and the reader of the elements: the text
  of a value is not empty and starts neither with white space nor with a closing brace,
  and the reader, on a good stream whose next characters are that text, or one space
  and that text, with a comma or a closing brace right after it, gives the value back
  and stops behind the text.
\<close>

definition serializable :: "(istream \<Rightarrow> (error + 'a) \<times> istream) \<Rightarrow> ('a \<Rightarrow> string) \<Rightarrow> bool" where
  "serializable readGenericValue writeGenericValue \<longleftrightarrow>
     (\<forall>v. writeGenericValue v \<noteq> [] \<and> \<not> isspace (hd (writeGenericValue v)) \<and>
          hd (writeGenericValue v) \<noteq> CHR ''}'') \<and>
     (\<forall>v is ws c rest.
        \<not> failbit is \<and> (ws = [] \<or> ws = '' '') \<and> (c = CHR '','' \<or> c = CHR ''}'') \<and>
        drop (pos is) (chars is) = ws @ writeGenericValue v @ c # rest \<longrightarrow>
        readGenericValue is =
          (Inr v, is\<lparr>pos := pos is + length ws + length (writeGenericValue v)\<rparr>))"

text \<open>
  The same of a reader alone, with the characters that may follow the text of a value
  given by \<open>follow\<close>: for a text that breaks off at another character than a comma or
  a closing brace.
\<close>

definition reads_before ::
  "(char \<Rightarrow> bool) \<Rightarrow> (istream \<Rightarrow> (error + 'a) \<times> istream) \<Rightarrow> ('a \<Rightarrow> string) \<Rightarrow> bool" where
  "reads_before follow readGenericValue writeGenericValue \<longleftrightarrow>
     (\<forall>v. writeGenericValue v \<noteq> [] \<and> \<not> isspace (hd (writeGenericValue v)) \<and>
          hd (writeGenericValue v) \<noteq> CHR ''}'') \<and>
     (\<forall>v is ws c rest.
        \<not> failbit is \<and> (ws = [] \<or> ws = '' '') \<and> follow c \<and>
        drop (pos is) (chars is) = ws @ writeGenericValue v @ c # rest \<longrightarrow>
        readGenericValue is =
          (Inr v, is\<lparr>pos := pos is + length ws + length (writeGenericValue v)\<rparr>))"

text \<open>
  One such element type, for the instances below: truth values, written \<open>true\<close> and
  \<open>false\<close>. The reader skips white space; where it finds neither word it sets the
  flag of the stream and gives \<open>False\<close>.
\<close>

definition write_bool :: "bool \<Rightarrow> string" where
  "write_bool b = (if b then ''true'' else ''false'')"

definition read_bool :: "istream \<Rightarrow> (error + bool) \<times> istream" where
  "read_bool is =
     (if failbit is then (Inr False, is)
      else (let rest = dropWhile isspace (drop (pos is) (chars is));
                p = length (chars is) - length rest
            in if take 4 rest = ''true'' then (Inr True, is\<lparr>pos := p + 4\<rparr>)
               else if take 5 rest = ''false'' then (Inr False, is\<lparr>pos := p + 5\<rparr>)
               else (Inr False, is\<lparr>pos := p, failbit := True\<rparr>)))"

text \<open>
  Three queues of integers for the instances: \<open>queue_12\<close> holds 1, 2 from index 0,
  \<open>queue_1\<close> holds 1, and \<open>queue_12_shifted\<close> holds 1, 2 from index 1. They are the
  objects 0, 1 and 2 of \<open>three_queues\<close>.
\<close>

definition queue_12 :: "int queue" where
  "queue_12 = snd (enqueue_all 0 [1, 2] (Queue 0))"

definition queue_1 :: "int queue" where
  "queue_1 = snd (enqueue_all 0 [1] (Queue 0))"

definition queue_12_shifted :: "int queue" where
  "queue_12_shifted = snd (enqueue_all 0 [1, 2] (snd (dequeue (snd (enqueue 0 5 (Queue 0))))))"

definition three_queues :: "int store" where
  "three_queues = [queue_12, queue_1, queue_12_shifted]"

text \<open>
  Two queues of truth values: object 0 of \<open>two_bool_queues\<close> holds \<open>True, False\<close>,
  object 1 is new.
\<close>

definition queue_tf :: "bool queue" where
  "queue_tf = snd (enqueue_all False [True, False] (Queue False))"

definition two_bool_queues :: "bool store" where
  "two_bool_queues = [queue_tf, Queue False]"

subsection \<open>The representation invariant and the logical sequence\<close>

definition rep_inv :: "'a queue \<Rightarrow> bool" where
  "rep_inv q \<longleftrightarrow>
     int (length (ringBuffer q)) = capacity q \<and>
     0 \<le> count q \<and> count q \<le> capacity q - 1 \<and>
     0 \<le> head q \<and> head q < capacity q \<and>
     0 \<le> tail q \<and> tail q < capacity q \<and>
     tail q = (head q + count q) mod capacity q"

definition logical :: "'a queue \<Rightarrow> 'a list" where
  "logical q =
     map (\<lambda>i. ringBuffer q ! nat ((head q + int i) mod capacity q)) [0..<nat (count q)]"

subsection \<open>Basic facts: growth, enqueue and dequeue on a well-formed queue\<close>

lemma smod_nonneg: "0 \<le> a \<Longrightarrow> 0 < b \<Longrightarrow> (a::int) smod b = a mod b"
  by (cases "a = 0") (simp_all add: smod_int_alt_def)

lemma expand_loop_ok:
  "int (length copy) = capacity q \<Longrightarrow> 0 \<le> head q \<Longrightarrow> 0 < capacity q \<Longrightarrow> 0 \<le> i \<Longrightarrow>
   count q \<le> int (length (ringBuffer q)) \<Longrightarrow>
   \<exists>rb. expand_loop copy i q = (Inr (), q\<lparr>ringBuffer := rb\<rparr>) \<and>
        length rb = length (ringBuffer q) \<and>
        (\<forall>k. i \<le> k \<and> k < count q \<longrightarrow> rb ! nat k = copy ! nat ((head q + k) mod capacity q)) \<and>
        (\<forall>k. 0 \<le> k \<and> k < i \<longrightarrow> rb ! nat k = ringBuffer q ! nat k)"
proof (induction copy i q rule: expand_loop.induct)
  case (1 copy i q)
  show ?case
  proof (cases "i < count q")
    case False
    then have "expand_loop copy i q = (Inr (), q\<lparr>ringBuffer := ringBuffer q\<rparr>)"
      by (subst expand_loop.simps) simp
    with False show ?thesis by (intro exI[of _ "ringBuffer q"]) auto
  next
    case True
    let ?j = "(head q + i) mod capacity q"
    let ?x = "copy ! nat ?j"
    let ?q = "q\<lparr>ringBuffer := (ringBuffer q)[nat i := ?x]\<rparr>"
    have j: "0 \<le> ?j" "?j < capacity q" using 1(4) by simp_all
    have g: "vec_get copy ((head q + i) smod capacity q) = Inr ?x"
      using 1(2-5) j by (simp add: vec_get_def smod_nonneg)
    have s: "vec_set (ringBuffer q) i ?x = Inr ((ringBuffer q)[nat i := ?x])"
      using 1(5,6) True by (simp add: vec_set_def)
    from "1.IH"[OF True g s] 1(2-6)
    obtain rb where rb: "expand_loop copy (i + 1) ?q = (Inr (), ?q\<lparr>ringBuffer := rb\<rparr>)"
      "length rb = length (ringBuffer ?q)"
      "\<forall>k. i + 1 \<le> k \<and> k < count ?q \<longrightarrow> rb ! nat k = copy ! nat ((head ?q + k) mod capacity ?q)"
      "\<forall>k. 0 \<le> k \<and> k < i + 1 \<longrightarrow> rb ! nat k = ringBuffer ?q ! nat k"
      by auto
    have e: "expand_loop copy i q = (Inr (), q\<lparr>ringBuffer := rb\<rparr>)"
      by (subst expand_loop.simps) (simp add: True g s rb(1))
    have l: "length rb = length (ringBuffer q)" using rb(2) by simp
    have a: "rb ! nat k = copy ! nat ((head q + k) mod capacity q)" if "i \<le> k" "k < count q" for k
    proof (cases "k = i")
      case True
      have "rb ! nat i = ringBuffer ?q ! nat i" using rb(4) 1(5) by simp
      also have "\<dots> = ?x" using 1(5,6) \<open>i < count q\<close> by simp
      finally show ?thesis using True by simp
    next
      case False
      then show ?thesis using rb(3) that by simp
    qed
    have b: "rb ! nat k = ringBuffer q ! nat k" if "0 \<le> k" "k < i" for k
    proof -
      have "rb ! nat k = ringBuffer ?q ! nat k" using rb(4) that by simp
      also have "\<dots> = ringBuffer q ! nat k" using that by simp
      finally show ?thesis .
    qed
    show ?thesis using e l a b by blast
  qed
qed


lemma length_logical: "length (logical q) = nat (count q)"
  by (simp add: logical_def)

lemma nth_logical:
  "i < nat (count q) \<Longrightarrow> logical q ! i = ringBuffer q ! nat ((head q + int i) mod capacity q)"
  by (simp add: logical_def)

lemma ring_slots_distinct:
  fixes h c :: int
  assumes "0 \<le> i" "i < j" "j < c"
  shows "(h + i) mod c \<noteq> (h + j) mod c"
proof
  assume "(h + i) mod c = (h + j) mod c"
  then have "c dvd (h + j) - (h + i)" by (metis mod_eq_dvd_iff)
  then have "c dvd j - i" by simp
  moreover have "0 < j - i" "j - i < c" using assms by simp_all
  ultimately show False using zdvd_not_zless by blast
qed

lemma expand_ok:
  assumes "rep_inv q" and "2 * capacity q \<le> INT_MAX"
  shows "\<exists>g. expandRingBufferCapacity dv q = (Inr (), g) \<and>
             length (ringBuffer g) = nat (2 * capacity q) \<and>
             (\<forall>i < nat (count q).
                ringBuffer g ! i = ringBuffer q ! nat ((head q + int i) mod capacity q)) \<and>
             head g = 0 \<and> tail g = count q \<and> capacity g = 2 * capacity q \<and>
             count g = count q"
proof -
  let ?q = "q\<lparr>ringBuffer := Vector (2 * capacity q) dv\<rparr>"
  from assms(1) have inv: "int (length (ringBuffer q)) = capacity q" "0 \<le> count q"
    "count q \<le> capacity q - 1" "0 \<le> head q"
    by (simp_all add: rep_inv_def)
  have rng: "in_int (2 * capacity q)"
    using inv(2,3) assms(2) by (simp add: in_int_def INT_MIN_def)
  have "count ?q \<le> int (length (ringBuffer ?q))" using inv by (simp add: Vector_def)
  with expand_loop_ok[of "ringBuffer q" ?q 0] inv
  obtain rb where rb: "expand_loop (ringBuffer q) 0 ?q = (Inr (), ?q\<lparr>ringBuffer := rb\<rparr>)"
    "length rb = length (ringBuffer ?q)"
    "\<forall>k. 0 \<le> k \<and> k < count q \<longrightarrow> rb ! nat k = ringBuffer q ! nat ((head q + k) mod capacity q)"
    by auto
  let ?g = "\<lparr>ringBuffer = rb, count = count q, capacity = capacity q * 2, head = 0, tail = count q\<rparr>"
  have "expandRingBufferCapacity dv q = (Inr (), ?g)"
    by (simp add: expandRingBufferCapacity_def Let_def rng rb(1))
  moreover have "length rb = nat (2 * capacity q)" using rb(2) by (simp add: Vector_def)
  moreover have "\<forall>i < nat (count q). rb ! i = ringBuffer q ! nat ((head q + int i) mod capacity q)"
  proof (intro allI impI)
    fix i assume "i < nat (count q)"
    then have "0 \<le> int i \<and> int i < count q" by simp
    with rb(3) have "rb ! nat (int i) = ringBuffer q ! nat ((head q + int i) mod capacity q)"
      by blast
    then show "rb ! i = ringBuffer q ! nat ((head q + int i) mod capacity q)" by simp
  qed
  ultimately show ?thesis by (intro exI[of _ ?g]) simp
qed

lemma grown_inv_logical:
  assumes "rep_inv q"
    and "length (ringBuffer g) = nat (2 * capacity q)"
    and "\<forall>i < nat (count q). ringBuffer g ! i = ringBuffer q ! nat ((head q + int i) mod capacity q)"
    and "head g = 0" "tail g = count q" "capacity g = 2 * capacity q" "count g = count q"
  shows "rep_inv g \<and> logical g = logical q"
proof
  from assms(1) have inv: "0 \<le> count q" "count q \<le> capacity q - 1"
    by (simp_all add: rep_inv_def)
  show "rep_inv g" using assms(2,4-7) inv by (simp add: rep_inv_def)
  show "logical g = logical q"
  proof (rule nth_equalityI)
    show "length (logical g) = length (logical q)" by (simp add: length_logical assms(7))
  next
    fix i assume "i < length (logical g)"
    then have i: "i < nat (count q)" by (simp add: length_logical assms(7))
    then have "int i < 2 * capacity q" using inv by simp
    then have "(head g + int i) mod capacity g = int i" using assms(4,6) by simp
    then have "logical g ! i = ringBuffer g ! i" using i by (simp add: nth_logical assms(7))
    also have "\<dots> = logical q ! i" using i assms(3) by (simp add: nth_logical)
    finally show "logical g ! i = logical q ! i" .
  qed
qed

lemma store_logical:
  assumes "rep_inv q" "count q < capacity q - 1"
  shows "\<exists>q'. (case vec_set (ringBuffer q) (tail q) v of
                  Inl e \<Rightarrow> (Inl e, q)
                | Inr rb \<Rightarrow> (Inr (), q\<lparr>ringBuffer := rb, tail := (tail q + 1) smod capacity q,
                                       count := count q + 1\<rparr>)) = (Inr (), q') \<and>
              rep_inv q' \<and> logical q' = logical q @ [v] \<and> count q' = count q + 1 \<and>
              capacity q' = capacity q"
proof -
  from assms(1) have inv: "int (length (ringBuffer q)) = capacity q" "0 \<le> count q"
    "0 \<le> head q" "head q < capacity q" "0 \<le> tail q" "tail q < capacity q"
    "tail q = (head q + count q) mod capacity q"
    by (simp_all add: rep_inv_def)
  let ?rb = "(ringBuffer q)[nat (tail q) := v]"
  let ?q = "q\<lparr>ringBuffer := ?rb, tail := (tail q + 1) smod capacity q, count := count q + 1\<rparr>"
  have cap: "0 < capacity q" using inv by simp
  have t: "(tail q + 1) smod capacity q = (head q + (count q + 1)) mod capacity q"
    using inv cap by (simp add: smod_nonneg mod_add_left_eq add.assoc)
  have "rep_inv ?q" using inv(1-4) assms(2) cap by (simp add: rep_inv_def t)
  moreover have "logical ?q = logical q @ [v]"
  proof (rule nth_equalityI)
    show "length (logical ?q) = length (logical q @ [v])"
      using inv by (simp add: length_logical nat_add_distrib)
  next
    fix i assume "i < length (logical ?q)"
    then have i: "i < nat (count q + 1)" by (simp add: length_logical)
    show "logical ?q ! i = (logical q @ [v]) ! i"
    proof (cases "i < nat (count q)")
      case True
      then have "(head q + int i) mod capacity q \<noteq> (head q + count q) mod capacity q"
        using ring_slots_distinct[of "int i" "count q" "capacity q" "head q"] assms(2) by simp
      then have "nat ((head q + int i) mod capacity q) \<noteq> nat (tail q)"
        using inv cap by (simp add: nat_eq_iff)
      then show ?thesis using True i by (simp add: nth_logical nth_append length_logical)
    next
      case False
      then have ic: "i = nat (count q)" using i inv(2) by linarith
      have "(head q + int i) mod capacity q = tail q" using ic inv(2,7) by simp
      moreover have "logical ?q ! i = ?rb ! nat ((head q + int i) mod capacity q)"
        using i nth_logical[of i ?q] by simp
      moreover have "nat (tail q) < length (ringBuffer q)" using inv(1,5,6) by linarith
      ultimately have "logical ?q ! i = v" by simp
      moreover have "(logical q @ [v]) ! i = v"
        using ic nth_append_length[of "logical q" v "[]"] by (simp add: length_logical)
      ultimately show ?thesis by simp
    qed
  qed
  moreover have "vec_set (ringBuffer q) (tail q) v = Inr ?rb" using inv by (simp add: vec_set_def)
  ultimately show ?thesis by (intro exI[of _ ?q]) simp
qed


lemma enqueue_ok:
  assumes "rep_inv q" and "count q \<ge> capacity q - 1 \<longrightarrow> 2 * capacity q \<le> INT_MAX"
  shows "\<exists>q'. enqueue dv v q = (Inr (), q') \<and> rep_inv q' \<and> logical q' = logical q @ [v] \<and>
              count q' = count q + 1 \<and>
              capacity q' = (if count q \<ge> capacity q - 1 then 2 * capacity q else capacity q)"
proof (cases "count q \<ge> capacity q - 1")
  case True
  then have "2 * capacity q \<le> INT_MAX" using assms(2) by simp
  from expand_ok[OF assms(1) this, of dv] obtain g where g:
    "expandRingBufferCapacity dv q = (Inr (), g)"
    "length (ringBuffer g) = nat (2 * capacity q)"
    "\<forall>i < nat (count q). ringBuffer g ! i = ringBuffer q ! nat ((head q + int i) mod capacity q)"
    "head g = 0" "tail g = count q" "capacity g = 2 * capacity q" "count g = count q"
    by blast
  from grown_inv_logical[OF assms(1) g(2-7)] have gi: "rep_inv g" "logical g = logical q"
    by simp_all
  from assms(1) have "0 \<le> count q" "count q \<le> capacity q - 1"
    by (simp_all add: rep_inv_def)
  then have "count g < capacity g - 1" using g(6,7) by simp
  from store_logical[OF gi(1) this, of v] obtain q' where q':
    "(case vec_set (ringBuffer g) (tail g) v of
        Inl e \<Rightarrow> (Inl e, g)
      | Inr rb \<Rightarrow> (Inr (), g\<lparr>ringBuffer := rb, tail := (tail g + 1) smod capacity g,
                             count := count g + 1\<rparr>)) = (Inr (), q')"
    "rep_inv q'" "logical q' = logical g @ [v]" "count q' = count g + 1"
    "capacity q' = capacity g"
    by blast
  have "enqueue dv v q = (Inr (), q')" using True q'(1) by (simp add: enqueue_def g(1))
  then show ?thesis using True q'(2-5) gi(2) g(6,7) by simp
next
  case False
  then have "count q < capacity q - 1" by simp
  from store_logical[OF assms(1) this, of v] obtain q' where q':
    "(case vec_set (ringBuffer q) (tail q) v of
        Inl e \<Rightarrow> (Inl e, q)
      | Inr rb \<Rightarrow> (Inr (), q\<lparr>ringBuffer := rb, tail := (tail q + 1) smod capacity q,
                             count := count q + 1\<rparr>)) = (Inr (), q')"
    "rep_inv q'" "logical q' = logical q @ [v]" "count q' = count q + 1"
    "capacity q' = capacity q"
    by blast
  have "enqueue dv v q = (Inr (), q')" using False q'(1) by (simp add: enqueue_def)
  then show ?thesis using False q'(2-5) by simp
qed

lemma dequeue_ok:
  assumes "rep_inv q" "count q \<noteq> 0"
  shows "\<exists>q'. dequeue q = (Inr (hd (logical q)), q') \<and> rep_inv q' \<and>
              logical q' = tl (logical q) \<and> count q' = count q - 1 \<and>
              capacity q' = capacity q \<and> ringBuffer q' = ringBuffer q"
proof -
  from assms(1) have inv: "int (length (ringBuffer q)) = capacity q" "0 \<le> count q"
    "count q \<le> capacity q - 1" "0 \<le> head q" "head q < capacity q"
    "tail q = (head q + count q) mod capacity q"
    by (simp_all add: rep_inv_def)
  have cap: "0 < capacity q" using inv by simp
  have pos: "0 < count q" using inv(2) assms(2) by simp
  let ?q = "q\<lparr>head := (head q + 1) smod capacity q, count := count q - 1\<rparr>"
  have h: "(head q + 1) smod capacity q = (head q + 1) mod capacity q"
    using inv(4) cap by (simp add: smod_nonneg)
  have shift: "(head ?q + k) mod capacity q = (head q + (k + 1)) mod capacity q" for k
  proof -
    have "(head ?q + k) mod capacity q = ((head q + 1) mod capacity q + k) mod capacity q"
      by (simp add: h)
    also have "\<dots> = (head q + 1 + k) mod capacity q" by (simp only: mod_add_left_eq)
    finally show ?thesis by (simp add: ac_simps)
  qed
  have hd_eq: "hd (logical q) = ringBuffer q ! nat (head q)"
  proof -
    have "logical q \<noteq> []" using pos length_logical[of q] by auto
    then have "hd (logical q) = logical q ! 0" by (simp add: hd_conv_nth)
    also have "\<dots> = ringBuffer q ! nat ((head q + int 0) mod capacity q)"
      using pos by (intro nth_logical) simp
    also have "(head q + int 0) mod capacity q = head q" using inv(4,5) by simp
    finally show ?thesis .
  qed
  have g: "vec_get (ringBuffer q) (head q) = Inr (hd (logical q))"
    using inv(1,4,5) by (simp add: vec_get_def hd_eq)
  have d: "dequeue q = (Inr (hd (logical q)), ?q)"
    using assms(2) by (simp add: dequeue_def g)
  have "tail q = (head q + 1 + (count q - 1)) mod capacity q" using inv(6) by simp
  also have "\<dots> = ((head q + 1) mod capacity q + (count q - 1)) mod capacity q"
    by (simp only: mod_add_left_eq)
  finally have t: "tail q = ((head q + 1) mod capacity q + (count q - 1)) mod capacity q" .
  have r: "rep_inv ?q"
    using inv(1-3) pos cap t by (simp add: rep_inv_def h)
  have l: "logical ?q = tl (logical q)"
  proof (rule nth_equalityI)
    show "length (logical ?q) = length (tl (logical q))"
      by (simp add: length_logical nat_diff_distrib)
  next
    fix i assume "i < length (logical ?q)"
    then have i: "i < nat (count q - 1)" by (simp add: length_logical)
    then have i': "Suc i < nat (count q)" by linarith
    have "logical ?q ! i = ringBuffer q ! nat ((head ?q + int i) mod capacity q)"
      using i nth_logical[of i ?q] by simp
    also have "\<dots> = ringBuffer q ! nat ((head q + int (Suc i)) mod capacity q)"
      by (simp only: shift) (simp add: ac_simps)
    also have "\<dots> = logical q ! Suc i" using i' by (simp only: nth_logical)
    also have "\<dots> = tl (logical q) ! i" using i' by (simp add: nth_tl length_logical)
    finally show "logical ?q ! i = tl (logical q) ! i" .
  qed
  show ?thesis using d r l by (intro exI[of _ ?q]) simp
qed

subsection \<open>The FIFO law\<close>

lemma rep_inv_clear: "rep_inv (clear dv q)"
  by (simp add: rep_inv_def clear_def Let_def INITIAL_CAPACITY_def Vector_def)

lemma logical_clear: "logical (clear dv q) = []"
  by (simp add: logical_def clear_def Let_def)

lemma enqueue_ok_count:
  assumes "rep_inv q" and "2 * (count q + 1) \<le> INT_MAX"
  shows "\<exists>q'. enqueue dv v q = (Inr (), q') \<and> rep_inv q' \<and> logical q' = logical q @ [v] \<and>
              count q' = count q + 1 \<and>
              capacity q' = (if count q \<ge> capacity q - 1 then 2 * capacity q else capacity q)"
proof (rule enqueue_ok[OF assms(1)], rule impI)
  assume "capacity q - 1 \<le> count q"
  then have "2 * capacity q \<le> 2 * (count q + 1)" by simp
  then show "2 * capacity q \<le> INT_MAX" using assms(2) by linarith
qed

lemma enqueue_all_ok:
  "rep_inv q \<Longrightarrow> 2 * (count q + int (length vs)) \<le> INT_MAX \<Longrightarrow>
   \<exists>q'. enqueue_all dv vs q = (Inr (), q') \<and> rep_inv q' \<and> logical q' = logical q @ vs"
proof (induction vs arbitrary: q)
  case Nil
  then show ?case by simp
next
  case (Cons v vs)
  have "2 * (count q + 1) \<le> INT_MAX" using Cons.prems(2) by simp
  from enqueue_ok_count[OF Cons.prems(1) this, of dv v] obtain q1 where q1:
    "enqueue dv v q = (Inr (), q1)" "rep_inv q1" "logical q1 = logical q @ [v]"
    "count q1 = count q + 1"
    by blast
  have "2 * (count q1 + int (length vs)) \<le> INT_MAX" using Cons.prems(2) q1(4) by simp
  from Cons.IH[OF q1(2) this] obtain q' where
    "enqueue_all dv vs q1 = (Inr (), q')" "rep_inv q'" "logical q' = logical q1 @ vs"
    by blast
  then show ?case using q1 by simp
qed

lemma below_2_30: "n < 2 ^ 30 \<Longrightarrow> 2 * int n \<le> INT_MAX"
  by (simp add: INT_MAX_def)

lemma below_2_30_int: "(c::int) < 2 ^ 30 \<Longrightarrow> 2 * c \<le> INT_MAX"
  by (simp add: INT_MAX_def)

lemma dequeue_n_ok:
  "rep_inv q \<Longrightarrow> n \<le> length (logical q) \<Longrightarrow>
   \<exists>q'. dequeue_n n q = (Inr (take n (logical q)), q') \<and> rep_inv q' \<and>
        logical q' = drop n (logical q)"
proof (induction n arbitrary: q)
  case 0
  then show ?case by simp
next
  case (Suc n)
  then have ne: "logical q \<noteq> []" by auto
  then have "count q \<noteq> 0" using length_logical[of q] by auto
  from dequeue_ok[OF Suc.prems(1) this] obtain q1 where q1:
    "dequeue q = (Inr (hd (logical q)), q1)" "rep_inv q1" "logical q1 = tl (logical q)"
    by blast
  have "n \<le> length (logical q1)" using Suc.prems(2) q1(3) by simp
  from Suc.IH[OF q1(2) this] obtain q' where q':
    "dequeue_n n q1 = (Inr (take n (logical q1)), q')" "rep_inv q'"
    "logical q' = drop n (logical q1)"
    by blast
  have "take (Suc n) (logical q) = hd (logical q) # take n (tl (logical q))"
    using ne by (cases "logical q") simp_all
  moreover have "drop (Suc n) (logical q) = drop n (tl (logical q))"
    by (simp add: drop_Suc)
  ultimately show ?case using q1 q' by simp
qed

text \<open>
  Claim C1 (FIFO law). On a well-formed empty queue, enqueueing the values of any list
  \<open>vs\<close> of fewer than \<open>2^30\<close> values succeeds, and \<open>length vs\<close> calls of \<open>dequeue\<close>
  after it succeed and return exactly \<open>vs\<close>, in the order in which the values were
  enqueued. The bound keeps \<open>2 * capacity\<close> within \<open>int\<close> at every growth: the vector
  grows only when it holds \<open>capacity - 1\<close> values, fewer than there are in \<open>vs\<close>.
\<close>

theorem fifo_law:
  assumes "rep_inv q" and "isEmpty q" and "length vs < 2 ^ 30"
  shows "fst (enqueue_all dv vs q) = Inr () \<and>
         fst (dequeue_n (length vs) (snd (enqueue_all dv vs q))) = Inr vs"
proof -
  have e: "logical q = []" using assms(2) length_logical[of q] by (simp add: isEmpty_def)
  have "2 * (count q + int (length vs)) \<le> INT_MAX"
    using assms(2) below_2_30[OF assms(3)] by (simp add: isEmpty_def)
  from enqueue_all_ok[OF assms(1) this, of dv] obtain q1 where q1:
    "enqueue_all dv vs q = (Inr (), q1)" "rep_inv q1" "logical q1 = logical q @ vs"
    by blast
  from dequeue_n_ok[OF q1(2), of "length vs"] q1(3) e obtain q2 where
    "dequeue_n (length vs) q1 = (Inr (take (length vs) (logical q1)), q2)"
    by auto
  then show ?thesis using q1 e by simp
qed

text \<open>The law at a new queue of integers and the values 1, 2, 3.\<close>

theorem fifo_law_witness:
  "rep_inv (Queue (0::int)) \<and> isEmpty (Queue (0::int)) \<and> length [1, 2, 3::int] < 2 ^ 30 \<and>
   fst (enqueue_all 0 [1, 2, 3] (Queue (0::int))) = Inr () \<and>
   fst (dequeue_n (length [1, 2, 3::int]) (snd (enqueue_all 0 [1, 2, 3] (Queue (0::int))))) =
     Inr [1, 2, 3]"
proof -
  have a: "rep_inv (Queue (0::int))"
    by (simp add: rep_inv_def Queue_def clear_def Let_def INITIAL_CAPACITY_def Vector_def)
  have b: "isEmpty (Queue (0::int))"
    by (simp add: isEmpty_def Queue_def clear_def Let_def)
  have c: "length [1, 2, 3::int] < 2 ^ 30" by simp
  show ?thesis using a b c fifo_law[OF a b c, of 0] by simp
qed

subsection \<open>The representation invariant holds in every reachable state\<close>





subsection \<open>Capacity\<close>








subsection \<open>The growth policy\<close>

lemma count_logical: "rep_inv q \<Longrightarrow> count q = int (length (logical q))"
  by (simp add: length_logical rep_inv_def)

lemma enqueue_all_no_growth:
  "rep_inv q \<Longrightarrow> count q + int (length vs) \<le> capacity q - 1 \<Longrightarrow>
   capacity (snd (enqueue_all dv vs q)) = capacity q"
proof (induction vs arbitrary: q)
  case Nil
  then show ?case by simp
next
  case (Cons v vs)
  have "count q \<ge> capacity q - 1 \<longrightarrow> 2 * capacity q \<le> INT_MAX"
    using Cons.prems(2) by simp
  from enqueue_ok[OF Cons.prems(1) this, of dv v] obtain q1 where q1:
    "enqueue dv v q = (Inr (), q1)" "rep_inv q1" "count q1 = count q + 1"
    "capacity q1 = (if count q \<ge> capacity q - 1 then 2 * capacity q else capacity q)"
    by blast
  have c: "capacity q1 = capacity q" using q1(4) Cons.prems(2) by simp
  then have "count q1 + int (length vs) \<le> capacity q1 - 1" using q1(3) Cons.prems(2) by simp
  from Cons.IH[OF q1(2) this] show ?case using q1(1) c by simp
qed

lemma enqueue_all_snoc:
  "enqueue_all dv (vs @ [v]) q =
     (case enqueue_all dv vs q of (Inl e, q) \<Rightarrow> (Inl e, q) | (Inr u, q) \<Rightarrow> enqueue dv v q)"
proof (induction vs arbitrary: q)
  case Nil
  show ?case by (cases "enqueue dv v q") (auto split: sum.splits)
next
  case (Cons w vs)
  show ?case by (cases "enqueue dv w q") (auto split: sum.splits simp: Cons.IH)
qed

text \<open>
  Claim C2 (growth policy). On a well-formed queue whose capacity is below \<open>2^30\<close>,
  so that \<open>2 * capacity\<close> is within \<open>int\<close>, \<open>expandRingBufferCapacity\<close>
  succeeds and leaves a vector of length \<open>2 * capacity\<close> whose indices
  \<open>0..count-1\<close> hold the live elements in logical order, with \<open>head = 0\<close>,
  \<open>tail = count\<close>, the capacity doubled, and the count and the logical sequence as
  before. A call of \<open>enqueue\<close> that finds \<open>count \<ge> capacity - 1\<close> stores the value
  into that grown queue, and one that does not leaves the capacity alone. Ten calls of
  \<open>enqueue\<close> on a new queue keep the capacity 10 through the ninth and make it 20 in
  the tenth, and ten calls of \<open>dequeue\<close> then return the ten values in order.
\<close>

theorem growth_policy:
  assumes "rep_inv q" and "capacity q < 2 ^ 30" and "length vs = 10"
  shows "(\<exists>g. expandRingBufferCapacity dv q = (Inr (), g) \<and>
              length (ringBuffer g) = nat (2 * capacity q) \<and>
              (\<forall>i < nat (count q).
                 ringBuffer g ! i = ringBuffer q ! nat ((head q + int i) mod capacity q)) \<and>
              head g = 0 \<and> tail g = count q \<and> capacity g = 2 * capacity q \<and>
              count g = count q \<and> logical g = logical q \<and>
              (count q \<ge> capacity q - 1 \<longrightarrow>
                 enqueue dv v q =
                   (Inr (), g\<lparr>ringBuffer := (ringBuffer g)[nat (tail g) := v],
                               tail := (tail g + 1) mod capacity g,
                               count := count g + 1\<rparr>))) \<and>
         (count q < capacity q - 1 \<longrightarrow> capacity (snd (enqueue dv v q)) = capacity q) \<and>
         (\<forall>k \<le> 9. capacity (snd (enqueue_all dv (take k vs) (Queue dv))) = 10) \<and>
         capacity (snd (enqueue_all dv vs (Queue dv))) = 20 \<and>
         fst (dequeue_n 10 (snd (enqueue_all dv vs (Queue dv)))) = Inr vs"
proof -
  from assms(1) have inv: "0 \<le> count q" "count q \<le> capacity q - 1"
    by (simp_all add: rep_inv_def)
  have rng: "2 * capacity q \<le> INT_MAX" by (rule below_2_30_int[OF assms(2)])
  have ten: "2 * (count (Queue dv) + int (length (take 9 vs))) \<le> INT_MAX"
    "2 * (count (Queue dv) + int (length vs)) \<le> INT_MAX"
    using assms(3) by (simp_all add: Queue_def clear_def Let_def INT_MAX_def)
  from expand_ok[OF assms(1) rng, of dv] obtain g where g:
    "expandRingBufferCapacity dv q = (Inr (), g)"
    "length (ringBuffer g) = nat (2 * capacity q)"
    "\<forall>i < nat (count q). ringBuffer g ! i = ringBuffer q ! nat ((head q + int i) mod capacity q)"
    "head g = 0" "tail g = count q" "capacity g = 2 * capacity q" "count g = count q"
    by blast
  from grown_inv_logical[OF assms(1) g(2-7)] have gi: "rep_inv g" "logical g = logical q"
    by simp_all
  have st: "enqueue dv v q =
      (Inr (), g\<lparr>ringBuffer := (ringBuffer g)[nat (tail g) := v],
                  tail := (tail g + 1) mod capacity g, count := count g + 1\<rparr>)"
    if "count q \<ge> capacity q - 1"
  proof -
    have "vec_set (ringBuffer g) (tail g) v = Inr ((ringBuffer g)[nat (tail g) := v])"
      using g(2,5,6) inv by (simp add: vec_set_def)
    moreover have "(tail g + 1) smod capacity g = (tail g + 1) mod capacity g"
      using g(5,6) inv by (simp add: smod_nonneg)
    ultimately show ?thesis using that by (simp add: enqueue_def g(1))
  qed
  have first: "\<exists>g. expandRingBufferCapacity dv q = (Inr (), g) \<and>
              length (ringBuffer g) = nat (2 * capacity q) \<and>
              (\<forall>i < nat (count q).
                 ringBuffer g ! i = ringBuffer q ! nat ((head q + int i) mod capacity q)) \<and>
              head g = 0 \<and> tail g = count q \<and> capacity g = 2 * capacity q \<and>
              count g = count q \<and> logical g = logical q \<and>
              (count q \<ge> capacity q - 1 \<longrightarrow>
                 enqueue dv v q =
                   (Inr (), g\<lparr>ringBuffer := (ringBuffer g)[nat (tail g) := v],
                               tail := (tail g + 1) mod capacity g,
                               count := count g + 1\<rparr>))"
    using g gi(2) st by (intro exI[of _ g]) simp
  have second: "capacity (snd (enqueue dv v q)) = capacity q" if "count q < capacity q - 1"
    using enqueue_ok[OF assms(1), of dv v] rng that by auto
  have new: "rep_inv (Queue dv)" "count (Queue dv) = 0" "capacity (Queue dv) = 10"
    "logical (Queue dv) = []"
    by (simp_all add: Queue_def rep_inv_clear logical_clear)
       (simp_all add: clear_def Let_def INITIAL_CAPACITY_def)
  have upto9: "capacity (snd (enqueue_all dv (take k vs) (Queue dv))) = 10" if "k \<le> 9" for k
    using enqueue_all_no_growth[OF new(1), of "take k vs" dv] that new(2,3) by simp
  have split: "vs = take 9 vs @ [vs ! 9]"
    using assms(3) by (simp add: take_Suc_conv_app_nth[symmetric])
  from enqueue_all_ok[OF new(1) ten(1), of dv] obtain q9 where q9:
    "enqueue_all dv (take 9 vs) (Queue dv) = (Inr (), q9)" "rep_inv q9"
    "logical q9 = take 9 vs"
    using new(4) by auto
  have c9: "count q9 = 9" using count_logical[OF q9(2)] q9(3) assms(3) by simp
  have k9: "capacity q9 = 10" using upto9[of 9] q9(1) by simp
  have "count q9 \<ge> capacity q9 - 1 \<longrightarrow> 2 * capacity q9 \<le> INT_MAX"
    using k9 by (simp add: INT_MAX_def)
  from enqueue_ok[OF q9(2) this, of dv "vs ! 9"] obtain q10 where q10:
    "enqueue dv (vs ! 9) q9 = (Inr (), q10)" "capacity q10 = 20"
    using c9 k9 by auto
  have "enqueue_all dv vs (Queue dv) = (Inr (), q10)"
    by (subst split) (simp add: enqueue_all_snoc q9(1) q10(1))
  then have tenth: "capacity (snd (enqueue_all dv vs (Queue dv))) = 20" using q10(2) by simp
  from enqueue_all_ok[OF new(1) ten(2), of dv] obtain qa where qa:
    "enqueue_all dv vs (Queue dv) = (Inr (), qa)" "rep_inv qa" "logical qa = vs"
    using new(4) by auto
  from dequeue_n_ok[OF qa(2), of 10] obtain qb where
    "dequeue_n 10 qa = (Inr (take 10 (logical qa)), qb)"
    using qa(3) assms(3) by auto
  then have deq: "fst (dequeue_n 10 (snd (enqueue_all dv vs (Queue dv)))) = Inr vs"
    using qa(1,3) assms(3) by simp
  show ?thesis using first second upto9 tenth deq by blast
qed


text \<open>
  The policy at the queue that holds 1 to 9, which grows when 10 is enqueued, at a new
  queue, which does not grow, and for the ten values 1 to 10.
\<close>

theorem growth_policy_witness:
  "rep_inv (snd (enqueue_all (0::int) [1, 2, 3, 4, 5, 6, 7, 8, 9] (Queue 0))) \<and>
   capacity (snd (enqueue_all (0::int) [1, 2, 3, 4, 5, 6, 7, 8, 9] (Queue 0))) < 2 ^ 30 \<and>
   length [1, 2, 3, 4, 5, 6, 7, 8, 9, 10::int] = 10 \<and>
   count (snd (enqueue_all (0::int) [1, 2, 3, 4, 5, 6, 7, 8, 9] (Queue 0)))
     \<ge> capacity (snd (enqueue_all (0::int) [1, 2, 3, 4, 5, 6, 7, 8, 9] (Queue 0))) - 1 \<and>
   enqueue 0 10 (snd (enqueue_all (0::int) [1, 2, 3, 4, 5, 6, 7, 8, 9] (Queue 0))) =
     (Inr (), \<lparr>ringBuffer = [1, 2, 3, 4, 5, 6, 7, 8, 9, 10, 0, 0, 0, 0, 0, 0, 0, 0, 0, 0],
               count = 10, capacity = 20, head = 0, tail = 10\<rparr>) \<and>
   rep_inv (Queue (0::int)) \<and> capacity (Queue (0::int)) < 2 ^ 30 \<and>
   count (Queue (0::int)) < capacity (Queue (0::int)) - 1 \<and>
   capacity (snd (enqueue 0 1 (Queue (0::int)))) = capacity (Queue (0::int)) \<and>
   (9::nat) \<le> 9 \<and>
   capacity (snd (enqueue_all 0 (take 9 [1, 2, 3, 4, 5, 6, 7, 8, 9, 10]) (Queue (0::int)))) = 10 \<and>
   capacity (snd (enqueue_all 0 [1, 2, 3, 4, 5, 6, 7, 8, 9, 10] (Queue (0::int)))) = 20 \<and>
   fst (dequeue_n 10 (snd (enqueue_all 0 [1, 2, 3, 4, 5, 6, 7, 8, 9, 10] (Queue (0::int))))) =
     Inr [1, 2, 3, 4, 5, 6, 7, 8, 9, 10]"
proof -
  let ?q9 = "snd (enqueue_all (0::int) [1, 2, 3, 4, 5, 6, 7, 8, 9] (Queue 0))"
  let ?vs = "[1, 2, 3, 4, 5, 6, 7, 8, 9, 10::int]"
  have a: "rep_inv ?q9" by code_simp
  have a': "capacity ?q9 < 2 ^ 30" by code_simp
  have b: "length ?vs = 10" by simp
  have c: "count ?q9 \<ge> capacity ?q9 - 1" by code_simp
  have d: "enqueue 0 10 ?q9 =
     (Inr (), \<lparr>ringBuffer = [1, 2, 3, 4, 5, 6, 7, 8, 9, 10, 0, 0, 0, 0, 0, 0, 0, 0, 0, 0],
               count = 10, capacity = 20, head = 0, tail = 10\<rparr>)"
    by code_simp
  have e: "rep_inv (Queue (0::int))" by (simp add: Queue_def rep_inv_clear)
  have e': "capacity (Queue (0::int)) < 2 ^ 30" by code_simp
  have f: "count (Queue (0::int)) < capacity (Queue (0::int)) - 1" by code_simp
  note grown = growth_policy[OF a a' b, of 0 10]
  note fresh = growth_policy[OF e e' b, of 0 1]
  have g: "capacity (snd (enqueue 0 1 (Queue (0::int)))) = capacity (Queue (0::int))"
    using fresh f by blast
  have "\<forall>k \<le> 9. capacity (snd (enqueue_all 0 (take k ?vs) (Queue 0))) = 10"
    using grown by blast
  then have h: "capacity (snd (enqueue_all 0 (take 9 ?vs) (Queue 0))) = 10"
    by (rule allE[of _ 9]) simp
  have i: "capacity (snd (enqueue_all 0 ?vs (Queue 0))) = 20" using grown by blast
  have j: "fst (dequeue_n 10 (snd (enqueue_all 0 ?vs (Queue 0)))) = Inr ?vs"
    using grown by blast
  show ?thesis by (intro conjI a a' b c d e e' f g h i j order_refl)
qed

subsection \<open>Errors on an empty queue\<close>

lemma vec_get_not_exception: "vec_get v i \<noteq> Inl (ErrorException m)"
  by (simp add: vec_get_def)

text \<open>
  Claim C5 (empty-queue errors). When \<open>count\<close> is 0, each of \<open>front\<close>, \<open>back\<close>,
  \<open>dequeue\<close> and \<open>peek\<close> throws its own error about the empty queue and leaves the
  state as it was; this is so for a new queue and for a cleared one. When \<open>count\<close>
  is not 0, none of them throws that error.
\<close>

theorem empty_queue_errors:
  "(count q = 0 \<longrightarrow>
      front q =
        (Inl (ErrorException ''Queue::front: Attempting to read front of an empty queue''), q) \<and>
      back_queue q =
        (Inl (ErrorException ''Queue::back: Attempting to read back of an empty queue''), q) \<and>
      dequeue q =
        (Inl (ErrorException ''Queue::dequeue: Attempting to dequeue an empty queue''), q) \<and>
      peek q =
        (Inl (ErrorException ''Queue::peek: Attempting to peek at an empty queue''), q)) \<and>
   (count q \<noteq> 0 \<longrightarrow>
      (\<forall>m. fst (front q) \<noteq> Inl (ErrorException m)) \<and>
      (\<forall>m. fst (back_queue q) \<noteq> Inl (ErrorException m)) \<and>
      (\<forall>m. fst (dequeue q) \<noteq> Inl (ErrorException m)) \<and>
      (\<forall>m. fst (peek q) \<noteq> Inl (ErrorException m))) \<and>
   count (Queue dv) = 0 \<and> count (clear dv q) = 0"
proof -
  have "fst (dequeue q) \<noteq> Inl (ErrorException m)" if "count q \<noteq> 0" for m
    using that vec_get_not_exception[of "ringBuffer q" "head q" m]
    by (cases "vec_get (ringBuffer q) (head q)") (auto simp: dequeue_def)
  moreover have "count (Queue dv) = 0" "count (clear dv q) = 0"
    by (simp_all add: Queue_def clear_def Let_def)
  ultimately show ?thesis
    by (simp add: front_def back_queue_def peek_def dequeue_def vec_get_not_exception)
qed

text \<open>The four calls on a new queue, and on the queue that holds 7.\<close>

theorem empty_queue_errors_witness:
  "count (Queue (0::int)) = 0 \<and>
   front (Queue (0::int)) =
     (Inl (ErrorException ''Queue::front: Attempting to read front of an empty queue''),
      Queue 0) \<and>
   back_queue (Queue (0::int)) =
     (Inl (ErrorException ''Queue::back: Attempting to read back of an empty queue''),
      Queue 0) \<and>
   dequeue (Queue (0::int)) =
     (Inl (ErrorException ''Queue::dequeue: Attempting to dequeue an empty queue''),
      Queue 0) \<and>
   peek (Queue (0::int)) =
     (Inl (ErrorException ''Queue::peek: Attempting to peek at an empty queue''),
      Queue 0) \<and>
   count (snd (enqueue 0 7 (Queue (0::int)))) \<noteq> 0 \<and>
   fst (front (snd (enqueue 0 7 (Queue (0::int))))) = Inr 7 \<and>
   fst (back_queue (snd (enqueue 0 7 (Queue (0::int))))) = Inr 7 \<and>
   fst (dequeue (snd (enqueue 0 7 (Queue (0::int))))) = Inr 7 \<and>
   fst (peek (snd (enqueue 0 7 (Queue (0::int))))) = Inr 7"
proof -
  have a: "count (Queue (0::int)) = 0" by (simp add: Queue_def clear_def Let_def)
  have b: "count (snd (enqueue 0 7 (Queue (0::int)))) \<noteq> 0" by code_simp
  have c: "fst (front (snd (enqueue 0 7 (Queue (0::int))))) = Inr 7"
    "fst (back_queue (snd (enqueue 0 7 (Queue (0::int))))) = Inr 7"
    "fst (dequeue (snd (enqueue 0 7 (Queue (0::int))))) = Inr 7"
    "fst (peek (snd (enqueue 0 7 (Queue (0::int))))) = Inr 7"
    by code_simp+
  from empty_queue_errors[of "Queue (0::int)" 0] a
  have d: "front (Queue (0::int)) =
     (Inl (ErrorException ''Queue::front: Attempting to read front of an empty queue''),
      Queue 0)"
    "back_queue (Queue (0::int)) =
     (Inl (ErrorException ''Queue::back: Attempting to read back of an empty queue''),
      Queue 0)"
    "dequeue (Queue (0::int)) =
     (Inl (ErrorException ''Queue::dequeue: Attempting to dequeue an empty queue''),
      Queue 0)"
    "peek (Queue (0::int)) =
     (Inl (ErrorException ''Queue::peek: Attempting to peek at an empty queue''),
      Queue 0)"
    by blast+
  from empty_queue_errors[of "snd (enqueue 0 7 (Queue (0::int)))" 0] b
  have "\<forall>m. fst (front (snd (enqueue 0 7 (Queue (0::int))))) \<noteq> Inl (ErrorException m)"
    by blast
  then show ?thesis by (intro conjI a b c d)
qed

subsection \<open>Structural equality\<close>

lemma dequeue_at_ok:
  assumes "p < length s" "rep_inv (s ! p)" "count (s ! p) \<noteq> 0"
  shows "\<exists>q'. dequeue_at p s = (Inr (hd (logical (s ! p))), s[p := q']) \<and> rep_inv q' \<and>
              logical q' = tl (logical (s ! p))"
proof -
  from dequeue_ok[OF assms(2,3)] obtain q' where
    "dequeue (s ! p) = (Inr (hd (logical (s ! p))), q')" "rep_inv q'"
    "logical q' = tl (logical (s ! p))"
    by blast
  then show ?thesis by (intro exI[of _ q']) (simp add: dequeue_at_def)
qed

lemma logical_Nil_iff: "rep_inv q \<Longrightarrow> logical q = [] \<longleftrightarrow> count q = 0"
  using length_logical[of q] by (auto simp: rep_inv_def)

lemma equals_loop_ok:
  "length (logical (s ! c1)) = k \<Longrightarrow> n \<le> c1 \<Longrightarrow> n \<le> c2 \<Longrightarrow> c1 < length s \<Longrightarrow>
   c2 < length s \<Longrightarrow> c1 \<noteq> c2 \<Longrightarrow> rep_inv (s ! c1) \<Longrightarrow> rep_inv (s ! c2) \<Longrightarrow>
   \<exists>s'. equals_loop c1 c2 s = Some (Inr (logical (s ! c1) = logical (s ! c2)), s') \<and>
        length s' = length s \<and> take n s' = take n s"
proof (induction k arbitrary: s)
  case 0
  then have e: "logical (s ! c1) = []" by simp
  then have "isEmpty (s ! c1)" using 0 by (simp add: isEmpty_def logical_Nil_iff)
  moreover have "isEmpty (s ! c2) \<longleftrightarrow> logical (s ! c2) = []"
    using 0 by (simp add: isEmpty_def logical_Nil_iff)
  ultimately show ?case using e by (subst equals_loop.simps) auto
next
  case (Suc k)
  let ?l1 = "logical (s ! c1)" and ?l2 = "logical (s ! c2)"
  from Suc.prems(1) have ne1: "?l1 \<noteq> []" by auto
  then have n1: "\<not> isEmpty (s ! c1)" using Suc.prems by (simp add: isEmpty_def logical_Nil_iff)
  show ?case
  proof (cases "isEmpty (s ! c2)")
    case True
    then have "?l2 = []" using Suc.prems by (simp add: isEmpty_def logical_Nil_iff)
    then show ?thesis using True n1 ne1 by (subst equals_loop.simps) auto
  next
    case False
    then have ne2: "?l2 \<noteq> []" using Suc.prems by (simp add: isEmpty_def logical_Nil_iff)
    from dequeue_at_ok[OF Suc.prems(4,7)] n1 obtain q1 where q1:
      "dequeue_at c1 s = (Inr (hd ?l1), s[c1 := q1])" "rep_inv q1" "logical q1 = tl ?l1"
      by (auto simp: isEmpty_def)
    let ?s1 = "s[c1 := q1]"
    have s1c2: "?s1 ! c2 = s ! c2" using Suc.prems(6) by simp
    have "c2 < length ?s1" "rep_inv (?s1 ! c2)" "count (?s1 ! c2) \<noteq> 0"
      using Suc.prems(5,8) False s1c2 by (simp_all add: isEmpty_def)
    from dequeue_at_ok[OF this] s1c2 obtain q2 where q2:
      "dequeue_at c2 ?s1 = (Inr (hd ?l2), ?s1[c2 := q2])" "rep_inv q2" "logical q2 = tl ?l2"
      by auto
    let ?s2 = "?s1[c2 := q2]"
    have unf: "equals_loop c1 c2 s =
        (if hd ?l1 \<noteq> hd ?l2 then Some (Inr False, ?s2) else equals_loop c1 c2 ?s2)"
      using n1 False by (subst equals_loop.simps) (simp add: q1(1) q2(1))
    have fr: "length ?s2 = length s" "take n ?s2 = take n s"
      using Suc.prems(2,3) by simp_all
    show ?thesis
    proof (cases "hd ?l1 = hd ?l2")
      case False
      then have "?l1 \<noteq> ?l2" by auto
      then show ?thesis using unf False fr by simp
    next
      case True
      have at: "?s2 ! c1 = q1" "?s2 ! c2 = q2"
        using Suc.prems(4,5,6) by simp_all
      have "length (logical (?s2 ! c1)) = k" using at q1(3) Suc.prems(1) by simp
      from Suc.IH[OF this Suc.prems(2,3)] Suc.prems(4,5,6) q1(2) q2(2) at
      obtain s' where s': "equals_loop c1 c2 ?s2 = Some (Inr (logical q1 = logical q2), s')"
        "length s' = length ?s2" "take n s' = take n ?s2"
        by auto
      have "(?l1 = ?l2) = (tl ?l1 = tl ?l2)"
        using ne1 ne2 True by (cases ?l1; cases ?l2) auto
      then show ?thesis using unf True s' fr q1(3) q2(3) by simp
    qed
  qed
qed

lemma equals_ok:
  assumes "p1 < length s" "p2 < length s" "rep_inv (s ! p1)" "rep_inv (s ! p2)"
  shows "equals s p1 p2 = Some (Inr (logical (s ! p1) = logical (s ! p2)), s)"
proof (cases "p1 = p2")
  case True
  then show ?thesis by (simp add: equals_def)
next
  case ne: False
  show ?thesis
  proof (cases "size_queue (s ! p1) = size_queue (s ! p2)")
    case False
    then have "length (logical (s ! p1)) \<noteq> length (logical (s ! p2))"
      using count_logical[OF assms(3)] count_logical[OF assms(4)] by (simp add: size_queue_def)
    then have "logical (s ! p1) \<noteq> logical (s ! p2)" by auto
    then show ?thesis using ne False by (simp add: equals_def)
  next
    case True
    let ?s2 = "(s @ [s ! p1]) @ [s ! p2]"
    let ?c1 = "length s" and ?c2 = "length (s @ [s ! p1])"
    have at: "?s2 ! ?c1 = s ! p1" "?s2 ! ?c2 = s ! p2"
      by (simp_all add: nth_append)
    have "\<exists>s'. equals_loop ?c1 ?c2 ?s2 =
                 Some (Inr (logical (?s2 ! ?c1) = logical (?s2 ! ?c2)), s') \<and>
               length s' = length ?s2 \<and> take (length s) s' = take (length s) ?s2"
      by (rule equals_loop_ok[OF refl]) (simp_all only: at assms, simp_all)
    then obtain s' where s':
      "equals_loop ?c1 ?c2 ?s2 = Some (Inr (logical (s ! p1) = logical (s ! p2)), s')"
      "take (length s) s' = take (length s) ?s2"
      using at by auto
    have "take (length s) s' = s" using s'(2) by simp
    then show ?thesis using ne True s'(1) by (simp add: equals_def Let_def)
  qed
qed


text \<open>
  Claim C4 (\<open>equals\<close>). Comparing an object with itself gives true at once. For
  two well-formed queues in the store, \<open>equals\<close> returns false when their sizes differ,
  and when the sizes are the same it returns true exactly if the elements at every FIFO
  position are equal; the result does not depend on the order of the two operands.
\<close>

theorem equals_structural:
  assumes "p1 < length s" and "p2 < length s" and "rep_inv (s ! p1)" and "rep_inv (s ! p2)"
  shows "equals s p1 p1 = Some (Inr True, s) \<and>
         (size_queue (s ! p1) \<noteq> size_queue (s ! p2) \<longrightarrow>
            equals s p1 p2 = Some (Inr False, s)) \<and>
         (size_queue (s ! p1) = size_queue (s ! p2) \<longrightarrow>
            equals s p1 p2 =
              Some (Inr (\<forall>i < nat (size_queue (s ! p1)).
                           logical (s ! p1) ! i = logical (s ! p2) ! i), s)) \<and>
         equals s p2 p1 = equals s p1 p2"
proof -
  let ?l1 = "logical (s ! p1)" and ?l2 = "logical (s ! p2)"
  note e = equals_ok[OF assms]
  have a: "equals s p1 p1 = Some (Inr True, s)" by (simp add: equals_def)
  have b: "equals s p1 p2 = Some (Inr False, s)"
    if "size_queue (s ! p1) \<noteq> size_queue (s ! p2)"
  proof -
    have "length ?l1 \<noteq> length ?l2"
      using that count_logical[OF assms(3)] count_logical[OF assms(4)]
      by (simp add: size_queue_def)
    then have "?l1 \<noteq> ?l2" by auto
    then show ?thesis using e by simp
  qed
  have c: "equals s p1 p2 =
      Some (Inr (\<forall>i < nat (size_queue (s ! p1)). ?l1 ! i = ?l2 ! i), s)"
    if "size_queue (s ! p1) = size_queue (s ! p2)"
  proof -
    have "length ?l1 = nat (size_queue (s ! p1))" "length ?l2 = length ?l1"
      using that by (simp_all add: size_queue_def length_logical)
    then have "(?l1 = ?l2) = (\<forall>i < nat (size_queue (s ! p1)). ?l1 ! i = ?l2 ! i)"
      by (auto simp: list_eq_iff_nth_eq)
    then show ?thesis using e by simp
  qed
  have d: "equals s p2 p1 = equals s p1 p2"
    using e equals_ok[OF assms(2,1,4,3)] by auto
  show ?thesis using a b c d by blast
qed

text \<open>
  The comparison among the three sample queues: object 0 with itself, with the shorter
  object 1, and with object 2, which holds the same values at other indices.
\<close>

theorem equals_structural_witness:
  "0 < length three_queues \<and> 1 < length three_queues \<and> 2 < length three_queues \<and>
   rep_inv (three_queues ! 0) \<and> rep_inv (three_queues ! 1) \<and> rep_inv (three_queues ! 2) \<and>
   equals three_queues 0 0 = Some (Inr True, three_queues) \<and>
   size_queue (three_queues ! 0) \<noteq> size_queue (three_queues ! 1) \<and>
   equals three_queues 0 1 = Some (Inr False, three_queues) \<and>
   size_queue (three_queues ! 0) = size_queue (three_queues ! 2) \<and>
   equals three_queues 0 2 = Some (Inr True, three_queues) \<and>
   equals three_queues 2 0 = equals three_queues 0 2 \<and>
   three_queues ! 0 \<noteq> three_queues ! 2"
proof -
  have l: "0 < length three_queues" "1 < length three_queues" "2 < length three_queues"
    by (simp_all add: three_queues_def)
  have r: "rep_inv (three_queues ! 0)" "rep_inv (three_queues ! 1)" "rep_inv (three_queues ! 2)"
    by code_simp+
  have d: "size_queue (three_queues ! 0) \<noteq> size_queue (three_queues ! 1)" by code_simp
  have e: "size_queue (three_queues ! 0) = size_queue (three_queues ! 2)" by code_simp
  have f: "three_queues ! 0 \<noteq> three_queues ! 2" by code_simp
  have g: "(\<forall>i < nat (size_queue (three_queues ! 0)).
              logical (three_queues ! 0) ! i = logical (three_queues ! 2) ! i) = True"
  proof -
    have "logical (three_queues ! 0) = [1, 2]" "logical (three_queues ! 2) = [1, 2]"
      by code_simp+
    then show ?thesis by simp
  qed
  note short = equals_structural[OF l(1) l(2) r(1) r(2)]
  note same = equals_structural[OF l(1) l(3) r(1) r(3)]
  have 1: "equals three_queues 0 0 = Some (Inr True, three_queues)" using same by blast
  have 2: "equals three_queues 0 1 = Some (Inr False, three_queues)" using short d by blast
  have "equals three_queues 0 2 =
      Some (Inr (\<forall>i < nat (size_queue (three_queues ! 0)).
                   logical (three_queues ! 0) ! i = logical (three_queues ! 2) ! i),
            three_queues)"
    using same e by blast
  then have 3: "equals three_queues 0 2 = Some (Inr True, three_queues)" by (simp only: g)
  have 4: "equals three_queues 2 0 = equals three_queues 0 2"
    using same by blast
  show ?thesis by (intro conjI l r d e f 1 2 3 4)
qed

subsection \<open>Inspecting a queue through a drained copy\<close>

lemma toStlQueue_loop_ok:
  "length (logical (s ! c)) = k \<Longrightarrow> n \<le> c \<Longrightarrow> c < length s \<Longrightarrow> rep_inv (s ! c) \<Longrightarrow>
   \<exists>s'. toStlQueue_loop c acc s = Some (Inr (acc @ logical (s ! c)), s') \<and>
        take n s' = take n s"
proof (induction k arbitrary: s acc)
  case 0
  then have "logical (s ! c) = []" by simp
  moreover from this have "isEmpty (s ! c)" using 0 by (simp add: isEmpty_def logical_Nil_iff)
  ultimately show ?case by (subst toStlQueue_loop.simps) simp
next
  case (Suc k)
  let ?l = "logical (s ! c)"
  from Suc.prems(1) have ne: "?l \<noteq> []" by auto
  then have n0: "count (s ! c) \<noteq> 0" using Suc.prems by (simp add: logical_Nil_iff)
  from dequeue_at_ok[OF Suc.prems(3,4) n0] obtain q1 where q1:
    "dequeue_at c s = (Inr (hd ?l), s[c := q1])" "rep_inv q1" "logical q1 = tl ?l"
    by blast
  let ?s1 = "s[c := q1]"
  have at: "?s1 ! c = q1" using Suc.prems(3) by simp
  have "length (logical (?s1 ! c)) = k" using at q1(3) Suc.prems(1) by simp
  from Suc.IH[OF this Suc.prems(2), of "acc @ [hd ?l]"] Suc.prems(3) q1(2) at
  obtain s' where s':
    "toStlQueue_loop c (acc @ [hd ?l]) ?s1 = Some (Inr ((acc @ [hd ?l]) @ logical q1), s')"
    "take n s' = take n ?s1"
    by auto
  have "toStlQueue_loop c acc s = toStlQueue_loop c (acc @ [hd ?l]) ?s1"
    using n0 by (subst toStlQueue_loop.simps) (simp add: isEmpty_def q1(1))
  moreover have "(acc @ [hd ?l]) @ logical q1 = acc @ ?l" using ne q1(3) by simp
  moreover have "take n ?s1 = take n s" using Suc.prems(2) by simp
  ultimately show ?case using s' by simp
qed

lemma toStlQueue_ok:
  assumes "p < length s" "rep_inv (s ! p)"
  shows "toStlQueue s p = Some (Inr (logical (s ! p)), s)"
proof -
  let ?s1 = "s @ [s ! p]"
  have at: "?s1 ! length s = s ! p" by simp
  have "\<exists>s'. toStlQueue_loop (length s) [] ?s1 = Some (Inr ([] @ logical (?s1 ! length s)), s') \<and>
             take (length s) s' = take (length s) ?s1"
    by (rule toStlQueue_loop_ok[OF refl]) (simp_all only: at assms, simp_all)
  then obtain s' where "toStlQueue_loop (length s) [] ?s1 = Some (Inr (logical (s ! p)), s')"
    "take (length s) s' = s"
    by auto
  then show ?thesis by (simp add: toStlQueue_def Let_def)
qed

lemma write_loop_rest:
  "length (logical (s ! c)) = k \<Longrightarrow> n \<le> c \<Longrightarrow> c < length s \<Longrightarrow> rep_inv (s ! c) \<Longrightarrow>
   0 < i \<Longrightarrow> len = i + count (s ! c) \<Longrightarrow>
   \<exists>s'. write_loop wr len i c os s =
          (None, os @ concat (map (\<lambda>x. '', '' @ wr x) (logical (s ! c))), s') \<and>
        take n s' = take n s"
proof (induction k arbitrary: s i os)
  case 0
  then have "logical (s ! c) = []" by simp
  moreover from this have "count (s ! c) = 0" using 0 by (simp add: logical_Nil_iff)
  ultimately show ?case using 0(6) by (subst write_loop.simps) simp
next
  case (Suc k)
  let ?l = "logical (s ! c)"
  from Suc.prems(1) have ne: "?l \<noteq> []" by auto
  then have n0: "count (s ! c) \<noteq> 0" using Suc.prems by (simp add: logical_Nil_iff)
  have pos: "0 < count (s ! c)" using n0 Suc.prems(4) by (simp add: rep_inv_def)
  from dequeue_ok[OF Suc.prems(4) n0] obtain q1 where q1:
    "dequeue (s ! c) = (Inr (hd ?l), q1)" "rep_inv q1" "logical q1 = tl ?l"
    "count q1 = count (s ! c) - 1"
    by blast
  let ?s1 = "s[c := q1]"
  have d: "dequeue_at c s = (Inr (hd ?l), ?s1)" by (simp add: dequeue_at_def q1(1))
  have at: "?s1 ! c = q1" using Suc.prems(3) by simp
  have "length (logical (?s1 ! c)) = k" using at q1(3) Suc.prems(1) by simp
  moreover have "len = (i + 1) + count (?s1 ! c)" using at q1(4) Suc.prems(6) by simp
  moreover have "0 < i + 1" using Suc.prems(5) by simp
  moreover have "c < length ?s1" "rep_inv (?s1 ! c)" using Suc.prems(3) q1(2) at by simp_all
  ultimately obtain s' where s':
    "write_loop wr len (i + 1) c ((os @ '', '') @ wr (hd ?l)) ?s1 =
       (None, ((os @ '', '') @ wr (hd ?l)) @ concat (map (\<lambda>x. '', '' @ wr x) (logical (?s1 ! c))), s')"
    "take n s' = take n ?s1"
    using Suc.IH[of ?s1 "i + 1" "(os @ '', '') @ wr (hd ?l)"] Suc.prems(2) by blast
  have "write_loop wr len i c os s = write_loop wr len (i + 1) c ((os @ '', '') @ wr (hd ?l)) ?s1"
    using pos Suc.prems(5,6) by (subst write_loop.simps) (simp add: d)
  moreover have "concat (map (\<lambda>x. '', '' @ wr x) ?l) =
      '', '' @ wr (hd ?l) @ concat (map (\<lambda>x. '', '' @ wr x) (tl ?l))"
    using ne by (cases ?l) simp_all
  moreover have "take n ?s1 = take n s" using Suc.prems(2) by simp
  ultimately show ?case using s' at q1(3) by simp
qed

lemma join_comma_Cons:
  "join_comma (t # ts) = t @ concat (map (\<lambda>u. '', '' @ u) ts)"
  by (induction ts arbitrary: t) simp_all

lemma write_loop_ok:
  assumes "n \<le> c" "c < length s" "rep_inv (s ! c)" "len = count (s ! c)"
  shows "\<exists>s'. write_loop wr len 0 c os s =
               (None, os @ join_comma (map wr (logical (s ! c))), s') \<and>
             take n s' = take n s"
proof (cases "count (s ! c) = 0")
  case True
  then have "logical (s ! c) = []" using assms(3) by (simp add: logical_Nil_iff)
  then show ?thesis using True assms(4) by (subst write_loop.simps) simp
next
  case n0: False
  let ?l = "logical (s ! c)"
  have ne: "?l \<noteq> []" using n0 assms(3) by (simp add: logical_Nil_iff)
  have pos: "0 < count (s ! c)" using n0 assms(3) by (simp add: rep_inv_def)
  from dequeue_ok[OF assms(3) n0] obtain q1 where q1:
    "dequeue (s ! c) = (Inr (hd ?l), q1)" "rep_inv q1" "logical q1 = tl ?l"
    "count q1 = count (s ! c) - 1"
    by blast
  let ?s1 = "s[c := q1]"
  have d: "dequeue_at c s = (Inr (hd ?l), ?s1)" by (simp add: dequeue_at_def q1(1))
  have at: "?s1 ! c = q1" using assms(2) by simp
  have "len = 1 + count (?s1 ! c)" using at q1(4) assms(4) by simp
  moreover have "c < length ?s1" "rep_inv (?s1 ! c)" using assms(2) q1(2) at by simp_all
  ultimately obtain s' where s':
    "write_loop wr len 1 c (os @ wr (hd ?l)) ?s1 =
       (None, (os @ wr (hd ?l)) @ concat (map (\<lambda>x. '', '' @ wr x) (logical (?s1 ! c))), s')"
    "take n s' = take n ?s1"
    using write_loop_rest[OF refl assms(1), of ?s1 1 len wr "os @ wr (hd ?l)"] by force
  have "write_loop wr len 0 c os s = write_loop wr len 1 c (os @ wr (hd ?l)) ?s1"
    using pos assms(4) by (subst write_loop.simps) (simp add: d)
  moreover have "join_comma (map wr ?l) =
      wr (hd ?l) @ concat (map (\<lambda>x. '', '' @ wr x) (tl ?l))"
    using ne by (cases ?l) (simp_all add: join_comma_Cons comp_def)
  moreover have "take n ?s1 = take n s" using assms(1) by simp
  ultimately show ?thesis using s' at q1(3) by simp
qed

lemma operator_shl_ok:
  assumes "p < length s" "rep_inv (s ! p)"
  shows "operator_shl wr os s p = (None, os @ spec_text wr (logical (s ! p)), s)"
proof -
  let ?s1 = "s @ [s ! p]"
  have at: "?s1 ! length s = s ! p" "?s1 ! p = s ! p" using assms(1) by (simp_all add: nth_append)
  have "\<exists>s'. write_loop wr (size_queue (?s1 ! p)) 0 (length s) (os @ ''{'') ?s1 =
               (None, (os @ ''{'') @ join_comma (map wr (logical (?s1 ! length s))), s') \<and>
             take (length s) s' = take (length s) ?s1"
    by (rule write_loop_ok) (simp_all only: at assms size_queue_def, simp_all)
  then obtain s' where
    "write_loop wr (size_queue (?s1 ! p)) 0 (length s) (os @ ''{'') ?s1 =
       (None, (os @ ''{'') @ join_comma (map wr (logical (s ! p))), s')"
    "take (length s) s' = s"
    using at by auto
  then show ?thesis by (simp add: operator_shl_def Let_def spec_text_def)
qed

lemma toString_ok:
  assumes "p < length s" "rep_inv (s ! p)"
  shows "toString wr s p = (Inr (spec_text wr (logical (s ! p))), s)"
  by (simp add: toString_def operator_shl_ok[OF assms])


text \<open>
  Claim C9 (formatting). For a well-formed queue in the store, \<open>toString\<close> returns,
  and \<open>operator <<\<close> appends to the stream, an opening brace, the texts of the elements
  in FIFO order as the formatter of the elements writes them, separated by a comma and
  a space with no separator after the last, and a closing brace; for an empty queue
  that is \<open>{}\<close>.
\<close>

theorem formatting_output:
  assumes "p < length s" and "rep_inv (s ! p)"
  shows "toString wr s p =
           (Inr (''{'' @ join_comma (map wr (logical (s ! p))) @ ''}''), s) \<and>
         operator_shl wr os s p =
           (None, os @ ''{'' @ join_comma (map wr (logical (s ! p))) @ ''}'', s) \<and>
         (count (s ! p) = 0 \<longrightarrow> fst (toString wr s p) = Inr ''{}'')"
proof -
  have "count (s ! p) = 0 \<longrightarrow> logical (s ! p) = []"
    using assms(2) by (simp add: logical_Nil_iff)
  then show ?thesis
    using toString_ok[OF assms, of wr] operator_shl_ok[OF assms, of wr os]
    by (auto simp: spec_text_def)
qed

text \<open>The text of the queue holding \<open>True, False\<close> and the text of a new queue.\<close>

theorem formatting_output_witness:
  "0 < length two_bool_queues \<and> rep_inv (two_bool_queues ! 0) \<and>
   1 < length two_bool_queues \<and> rep_inv (two_bool_queues ! 1) \<and>
   toString write_bool two_bool_queues 0 = (Inr ''{true, false}'', two_bool_queues) \<and>
   operator_shl write_bool ''q = '' two_bool_queues 0 =
     (None, ''q = {true, false}'', two_bool_queues) \<and>
   count (two_bool_queues ! 1) = 0 \<and>
   fst (toString write_bool two_bool_queues 1) = Inr ''{}''"
proof -
  have l: "0 < length two_bool_queues" "1 < length two_bool_queues"
    by (simp_all add: two_bool_queues_def)
  have r: "rep_inv (two_bool_queues ! 0)" "rep_inv (two_bool_queues ! 1)"
    by code_simp+
  have c: "count (two_bool_queues ! 1) = 0" by code_simp
  have t: "''{'' @ join_comma (map write_bool (logical (two_bool_queues ! 0))) @ ''}'' =
           ''{true, false}''"
    by code_simp
  note full = formatting_output[OF l(1) r(1), of write_bool "''q = ''"]
  note none = formatting_output[OF l(2) r(2), of write_bool "[]"]
  have 1: "toString write_bool two_bool_queues 0 = (Inr ''{true, false}'', two_bool_queues)"
    using full by (simp only: t)
  have 2: "operator_shl write_bool ''q = '' two_bool_queues 0 =
     (None, ''q = {true, false}'', two_bool_queues)"
    using full t by simp
  have 3: "fst (toString write_bool two_bool_queues 1) = Inr ''{}''"
    using none c by blast
  show ?thesis by (intro conjI l r c 1 2 3)
qed

text \<open>
  Claim C8 (inspection leaves its operands alone). For well-formed queues in the
  store, \<open>equals\<close> with \<open>operator ==\<close> and \<open>operator !=\<close>, \<open>toString\<close> with
  \<open>operator <<\<close>, and \<open>toStlQueue\<close> all return, and the store after the call is the
  store before it: every object has the fields and the elements it had. Nothing is
  stated of \<open>toStlDeque\<close>, which cannot be instantiated and so is never called.
\<close>

theorem inspection_non_destructive:
  assumes "p1 < length s" and "p2 < length s" and "rep_inv (s ! p1)" and "rep_inv (s ! p2)"
  shows "(\<exists>r. equals s p1 p2 = Some (r, s)) \<and>
         (\<exists>r. operator_eq s p1 p2 = Some (r, s)) \<and>
         (\<exists>r. operator_ne s p1 p2 = Some (r, s)) \<and>
         (\<exists>r. toString wr s p1 = (r, s)) \<and>
         (\<exists>e t. operator_shl wr os s p1 = (e, t, s)) \<and>
         toStlQueue s p1 = Some (Inr (logical (s ! p1)), s)"
proof -
  note e = equals_ok[OF assms]
  have "\<exists>r. operator_ne s p1 p2 = Some (r, s)" by (simp add: operator_ne_def e)
  moreover have "\<exists>r. operator_eq s p1 p2 = Some (r, s)" by (simp add: operator_eq_def e)
  moreover have "\<exists>r. equals s p1 p2 = Some (r, s)" by (simp add: e)
  moreover have "\<exists>r. toString wr s p1 = (r, s)" by (simp add: toString_ok[OF assms(1,3)])
  moreover have "\<exists>e t. operator_shl wr os s p1 = (e, t, s)"
    by (simp add: operator_shl_ok[OF assms(1,3)])
  ultimately show ?thesis
    using toStlQueue_ok[OF assms(1,3)] by blast
qed

text \<open>The calls on the two sample queues of truth values.\<close>

theorem inspection_non_destructive_witness:
  "0 < length two_bool_queues \<and> 1 < length two_bool_queues \<and>
   rep_inv (two_bool_queues ! 0) \<and> rep_inv (two_bool_queues ! 1) \<and>
   equals two_bool_queues 0 1 = Some (Inr False, two_bool_queues) \<and>
   snd (toString write_bool two_bool_queues 0) =  two_bool_queues \<and>
   toStlQueue two_bool_queues 0 = Some (Inr [True, False], two_bool_queues)"
proof -
  have l: "0 < length two_bool_queues" "1 < length two_bool_queues"
    by (simp_all add: two_bool_queues_def)
  have r: "rep_inv (two_bool_queues ! 0)" "rep_inv (two_bool_queues ! 1)"
    by code_simp+
  have c: "logical (two_bool_queues ! 0) = [True, False]" by code_simp
  have f: "equals two_bool_queues 0 1 = Some (Inr False, two_bool_queues)" by code_simp
  note all = inspection_non_destructive[OF l r, of write_bool "[]"]
  have 1: "snd (toString write_bool two_bool_queues 0) = two_bool_queues"
    using all by force
  have 3: "toStlQueue two_bool_queues 0 = Some (Inr [True, False], two_bool_queues)"
    using all c by simp
  show ?thesis by (intro conjI l r f 1 3)
qed

subsection \<open>Reading back what was written\<close>

lemma drop_more: "drop p cs = a @ b \<Longrightarrow> drop (p + length a) cs = b"
  by (metis add.commute append_eq_conv_conj drop_drop)

lemma extract_char_nonspace:
  assumes "\<not> failbit st" "drop (pos st) (chars st) = c # rest" "\<not> isspace c"
  shows "\<exists>st'. extract_char ch st = (c, st') \<and> \<not> failbit st' \<and>
               drop (pos st') (chars st') = rest \<and> unget st' = st"
proof -
  let ?st = "st\<lparr>pos := pos st + 1\<rparr>"
  have "length (drop (pos st) (chars st)) = Suc (length rest)" using assms(2) by simp
  then have "length (chars st) - length rest = pos st + 1" by simp
  then have "extract_char ch st = (c, ?st)" using assms by (simp add: extract_char_def)
  moreover have "drop (pos ?st) (chars ?st) = rest"
    using drop_more[of "pos st" "chars st" "[c]" rest] assms(2) by simp
  moreover have "unget ?st = st" using assms(1) by (simp add: unget_def)
  ultimately show ?thesis using assms(1) by (intro exI[of _ ?st]) simp
qed

lemma separators_not_space:
  "\<not> isspace (CHR '','')" "\<not> isspace (CHR ''}'')" "\<not> isspace (CHR ''{'')"
  by (simp_all add: isspace_def)

lemma reads_beforeD:
  assumes "reads_before follow rd wr"
  shows "wr v \<noteq> []" "\<not> isspace (hd (wr v))" "hd (wr v) \<noteq> CHR ''}''"
    and "\<not> failbit st \<Longrightarrow> ws = [] \<or> ws = '' '' \<Longrightarrow> follow c \<Longrightarrow>
         drop (pos st) (chars st) = ws @ wr v @ c # rest \<Longrightarrow>
         rd st = (Inr v, st\<lparr>pos := pos st + length ws + length (wr v)\<rparr>)"
  using assms unfolding reads_before_def by blast+

lemma serializable_reads:
  "serializable rd wr \<Longrightarrow> reads_before (\<lambda>d. d = CHR '','' \<or> d = CHR ''}'') rd wr"
  unfolding serializable_def reads_before_def by blast

lemma read_value:
  assumes "reads_before follow rd wr" "\<not> failbit st" "ws = [] \<or> ws = '' ''"
    "follow c" "drop (pos st) (chars st) = ws @ wr v @ c # rest"
  shows "\<exists>st'. rd st = (Inr v, st') \<and> \<not> failbit st' \<and> drop (pos st') (chars st') = c # rest"
proof -
  let ?st = "st\<lparr>pos := pos st + length ws + length (wr v)\<rparr>"
  have "rd st = (Inr v, ?st)" by (rule reads_beforeD(4)[OF assms])
  moreover have "drop (pos st + length (ws @ wr v)) (chars st) = c # rest"
    by (rule drop_more) (simp add: assms(5))
  then have "drop (pos ?st) (chars ?st) = c # rest" by (simp add: add.assoc)
  ultimately show ?thesis using assms(2) by (intro exI[of _ ?st]) simp
qed

text \<open>
  A capacity reached from 10 by doubling and below \<open>10 * 2^27\<close> can be doubled once
  more within \<open>int\<close>.
\<close>

lemma doubling_in_range:
  fixes c :: int
  assumes "c = 10 * 2 ^ j" and "c < 10 * 2 ^ 27"
  shows "2 * c \<le> INT_MAX" and "\<exists>j'. 2 * c = 10 * 2 ^ j'"
proof -
  have a: "(10::int) * 2 ^ j < 10 * 2 ^ 27" using assms(2) unfolding assms(1) .
  have "j < 27"
  proof (rule ccontr)
    assume "\<not> j < 27"
    then have "27 \<le> j" by simp
    then have "(2::int) ^ 27 \<le> 2 ^ j" by (rule power_increasing) simp
    with a show False by linarith
  qed
  then have "Suc j \<le> 27" by simp
  then have b: "(2::int) ^ Suc j \<le> 2 ^ 27" by (rule power_increasing) simp
  have d: "2 * c = 10 * 2 ^ Suc j" using assms(1) by simp
  have "(10::int) * 2 ^ Suc j \<le> 10 * 2 ^ 27" using b by (rule mult_left_mono) simp
  then show "2 * c \<le> INT_MAX" unfolding d by (simp add: INT_MAX_def)
  show "\<exists>j'. 2 * c = 10 * 2 ^ j'" using d by blast
qed

text \<open>
  A well-formed queue whose capacity is within \<open>int\<close> and was reached from 10 by
  doubling holds fewer than \<open>10 * 2^27\<close> elements.
\<close>

lemma count_below_doubled:
  assumes "rep_inv q" and "capacity q = 10 * 2 ^ j" and "capacity q \<le> INT_MAX"
  shows "count q < 10 * 2 ^ 27"
proof -
  have "j \<le> 27"
  proof (rule ccontr)
    assume "\<not> j \<le> 27"
    then have "28 \<le> j" by simp
    then have "(2::int) ^ 28 \<le> 2 ^ j" by (rule power_increasing) simp
    then have "(10::int) * 2 ^ 28 \<le> 10 * 2 ^ j" by (rule mult_left_mono) simp
    then show False using assms(2,3) by (simp add: INT_MAX_def)
  qed
  then have "(2::int) ^ j \<le> 2 ^ 27" by (rule power_increasing) simp
  then have "(10::int) * 2 ^ j \<le> 10 * 2 ^ 27" by (rule mult_left_mono) simp
  moreover have "count q \<le> capacity q - 1" using assms(1) by (simp add: rep_inv_def)
  ultimately show ?thesis using assms(2) by linarith
qed

lemma enqueue_ok_doubled:
  assumes "rep_inv q" and "capacity q = 10 * 2 ^ j" and "count q + 1 < 10 * 2 ^ 27"
  shows "\<exists>q' j'. enqueue dv v q = (Inr (), q') \<and> rep_inv q' \<and> logical q' = logical q @ [v] \<and>
                 count q' = count q + 1 \<and> capacity q' = 10 * 2 ^ j'"
proof -
  have g: "2 * capacity q \<le> INT_MAX" "\<exists>j'. 2 * capacity q = 10 * 2 ^ j'"
    if "count q \<ge> capacity q - 1"
  proof -
    have "capacity q < 10 * 2 ^ 27" using that assms(3) by linarith
    from doubling_in_range[OF assms(2) this]
    show "2 * capacity q \<le> INT_MAX" "\<exists>j'. 2 * capacity q = 10 * 2 ^ j'" by blast+
  qed
  then have "count q \<ge> capacity q - 1 \<longrightarrow> 2 * capacity q \<le> INT_MAX" by blast
  from enqueue_ok[OF assms(1) this, of dv v] obtain q' where q':
    "enqueue dv v q = (Inr (), q')" "rep_inv q'" "logical q' = logical q @ [v]"
    "count q' = count q + 1"
    "capacity q' = (if count q \<ge> capacity q - 1 then 2 * capacity q else capacity q)"
    by blast
  have "\<exists>j'. capacity q' = 10 * 2 ^ j'"
  proof (cases "count q \<ge> capacity q - 1")
    case True
    then show ?thesis using g(2) q'(5) by simp
  next
    case False
    then show ?thesis using assms(2) q'(5) by auto
  qed
  then show ?thesis using q'(1-4) by blast
qed

text \<open>
  The loop of \<open>operator >>\<close> on the texts of the values \<open>x, xs\<close> with their separators,
  followed by the character \<open>e\<close>: it enqueues the values and then returns, when \<open>e\<close>
  is the closing brace, and throws the error that names \<open>e\<close> otherwise.
\<close>

lemma read_loop_values:
  "reads_before (\<lambda>d. d = CHR '','' \<or> d = e) rd wr \<Longrightarrow> \<not> isspace e \<Longrightarrow> e \<noteq> CHR '','' \<Longrightarrow>
   rep_inv q \<Longrightarrow> capacity q = 10 * 2 ^ j \<Longrightarrow>
   count q + 1 + int (length xs) < 10 * 2 ^ 27 \<Longrightarrow>
   \<not> failbit st \<Longrightarrow> ws = [] \<or> ws = '' '' \<Longrightarrow>
   drop (pos st) (chars st) = ws @ wr x @ concat (map (\<lambda>y. '', '' @ wr y) xs) @ e # rest \<Longrightarrow>
   \<exists>st' q'. read_loop rd dv ch st q =
              Some (if e = CHR ''}'' then None
                    else Some (ErrorException
                                 (''Queue::operator >>: Unexpected character '' @ [e])),
                    st', q') \<and>
            rep_inv q' \<and> logical q' = logical q @ x # xs \<and>
            enqueue_all dv (x # xs) q = (Inr (), q')"
proof (induction xs arbitrary: x st q ch ws j)
  case Nil
  have d: "drop (pos st) (chars st) = ws @ wr x @ e # rest" using Nil.prems(9) by simp
  have "(\<lambda>d. d = CHR '','' \<or> d = e) e" by simp
  from read_value[OF Nil.prems(1,7,8) this d] obtain st1 where st1:
    "rd st = (Inr x, st1)" "\<not> failbit st1" "drop (pos st1) (chars st1) = e # rest"
    by auto
  have "count q + 1 < 10 * 2 ^ 27" using Nil.prems(6) by simp
  from enqueue_ok_doubled[OF Nil.prems(4,5) this, of dv x] obtain q1 where q1:
    "enqueue dv x q = (Inr (), q1)" "rep_inv q1" "logical q1 = logical q @ [x]"
    by blast
  from extract_char_nonspace[OF st1(2,3) Nil.prems(2), of ch] obtain st2 where
    "extract_char ch st1 = (e, st2)"
    by blast
  then have "read_loop rd dv ch st q =
      Some (if e = CHR ''}'' then None
            else Some (ErrorException (''Queue::operator >>: Unexpected character '' @ [e])),
            st2, q1)"
    using Nil.prems(3) by (subst read_loop.simps) (simp add: st1(1) q1(1))
  then show ?case using q1 by simp
next
  case (Cons y ys)
  let ?tl = "wr y @ concat (map (\<lambda>y. '', '' @ wr y) ys) @ e # rest"
  have d: "drop (pos st) (chars st) = ws @ wr x @ CHR '','' # ('' '' @ ?tl)"
    using Cons.prems(9) by simp
  have "(\<lambda>d. d = CHR '','' \<or> d = e) (CHR '','')" by simp
  from read_value[OF Cons.prems(1,7,8) this d] obtain st1 where st1:
    "rd st = (Inr x, st1)" "\<not> failbit st1"
    "drop (pos st1) (chars st1) = CHR '','' # ('' '' @ ?tl)"
    by auto
  have "count q + 1 < 10 * 2 ^ 27" using Cons.prems(6) by simp
  from enqueue_ok_doubled[OF Cons.prems(4,5) this, of dv x] obtain q1 j1 where q1:
    "enqueue dv x q = (Inr (), q1)" "rep_inv q1" "logical q1 = logical q @ [x]"
    "count q1 = count q + 1" "capacity q1 = 10 * 2 ^ j1"
    by blast
  from extract_char_nonspace[OF st1(2,3) separators_not_space(1), of ch] obtain st2 where st2:
    "extract_char ch st1 = (CHR '','', st2)" "\<not> failbit st2"
    "drop (pos st2) (chars st2) = '' '' @ ?tl"
    by blast
  have "count q1 + 1 + int (length ys) < 10 * 2 ^ 27" using Cons.prems(6) q1(4) by simp
  from Cons.IH[OF Cons.prems(1,2,3) q1(2,5) this st2(2) _ st2(3), of "CHR '',''"]
  obtain st' q' where
    "read_loop rd dv (CHR '','') st2 q1 =
       Some (if e = CHR ''}'' then None
             else Some (ErrorException (''Queue::operator >>: Unexpected character '' @ [e])),
             st', q')"
    "rep_inv q'" "logical q' = logical q1 @ y # ys"
    "enqueue_all dv (y # ys) q1 = (Inr (), q')"
    by auto
  moreover have "read_loop rd dv ch st q = read_loop rd dv (CHR '','') st2 q1"
    by (subst read_loop.simps) (simp add: st1(1) q1(1) st2(1))
  ultimately show ?case using q1(1,3) by simp
qed

text \<open>
  \<open>operator >>\<close> on an opening brace, the texts of the values \<open>xs\<close> with their
  separators and the character \<open>e\<close>, read into any queue.
\<close>

lemma operator_shr_values:
  assumes "reads_before (\<lambda>d. d = CHR '','' \<or> d = e) rd wr" "\<not> isspace e" "e \<noteq> CHR '',''"
    "int (length xs) < 10 * 2 ^ 27" "e = CHR ''}'' \<or> xs \<noteq> []"
  shows "\<exists>st' q'. operator_shr rd dv
                     (istringstream (''{'' @ join_comma (map wr xs) @ e # rest)) q =
                    Some (if e = CHR ''}'' then None
                          else Some (ErrorException
                                       (''Queue::operator >>: Unexpected character '' @ [e])),
                          st', q') \<and>
                  rep_inv q' \<and> logical q' = xs \<and>
                  enqueue_all dv xs (Queue dv) = (Inr (), q')"
proof -
  let ?body = "join_comma (map wr xs) @ e # rest"
  let ?st = "istringstream (CHR ''{'' # ?body)"
  have new: "clear dv q = Queue dv" by (simp add: Queue_def clear_def Let_def)
  have "\<not> failbit ?st" "drop (pos ?st) (chars ?st) = CHR ''{'' # ?body"
    by (simp_all add: istringstream_def)
  from extract_char_nonspace[OF this separators_not_space(3), of "CHR 0x00"] obtain st1 where
    st1: "extract_char (CHR 0x00) ?st = (CHR ''{'', st1)" "\<not> failbit st1"
      "drop (pos st1) (chars st1) = ?body"
    by blast
  show ?thesis
  proof (cases xs)
    case Nil
    then have e: "e = CHR ''}''" using assms(5) by simp
    then have "drop (pos st1) (chars st1) = CHR ''}'' # rest" using st1(3) Nil by simp
    from extract_char_nonspace[OF st1(2) this separators_not_space(2), of "CHR ''{''"]
    obtain st2 where "extract_char (CHR ''{'') st1 = (CHR ''}'', st2)" by blast
    then have "operator_shr rd dv ?st q = Some (None, st2, Queue dv)"
      by (simp add: operator_shr_def Let_def st1(1) new)
    then show ?thesis using Nil e rep_inv_clear[of dv q] logical_clear[of dv q]
      by (simp add: new)
  next
    case (Cons y ys)
    let ?rest = "concat (map (\<lambda>y. '', '' @ wr y) ys) @ e # rest"
    have b: "?body = wr y @ ?rest" using Cons by (simp add: join_comma_Cons comp_def)
    from reads_beforeD(1-3)[OF assms(1), of y] obtain c t where
      w: "wr y = c # t" "\<not> isspace c" "c \<noteq> CHR ''}''"
      by (cases "wr y") auto
    have "drop (pos st1) (chars st1) = c # (t @ ?rest)" using st1(3) b w(1) by simp
    from extract_char_nonspace[OF st1(2) this w(2), of "CHR ''{''"] obtain st2 where
      st2: "extract_char (CHR ''{'') st1 = (c, st2)" "unget st2 = st1"
      by blast
    have o: "operator_shr rd dv ?st q = read_loop rd dv c st1 (Queue dv)"
      using w(3) by (simp add: operator_shr_def Let_def st1(1) st2 new)
    have d: "drop (pos st1) (chars st1) = [] @ wr y @ ?rest" using st1(3) b by simp
    have k: "capacity (Queue dv) = 10 * 2 ^ 0" "count (Queue dv) = 0"
      "logical (Queue dv) = []" "rep_inv (Queue dv)"
      using rep_inv_clear[of dv q] logical_clear[of dv q]
      by (simp_all add: new) (simp_all add: Queue_def clear_def Let_def INITIAL_CAPACITY_def)
    have n: "count (Queue dv) + 1 + int (length ys) < 10 * 2 ^ 27"
      using assms(4) Cons k(2) by simp
    from read_loop_values[OF assms(1,2,3) k(4,1) n st1(2) _ d, where dv = dv and ch = c]
    show ?thesis using o Cons k(3) by simp
  qed
qed

lemma operator_shr_roundtrip:
  assumes "serializable rd wr" and "int (length xs) < 10 * 2 ^ 27"
  shows "\<exists>st' q'. operator_shr rd dv (istringstream (spec_text wr xs)) q =
                    Some (None, st', q') \<and> rep_inv q' \<and> logical q' = xs"
proof -
  have "spec_text wr xs = ''{'' @ join_comma (map wr xs) @ CHR ''}'' # []"
    by (simp add: spec_text_def)
  moreover from operator_shr_values[OF serializable_reads[OF assms(1)]
      separators_not_space(2) _ assms(2), where rest = "[]" and dv = dv and q = q]
  have "\<exists>st' q'. operator_shr rd dv
          (istringstream (''{'' @ join_comma (map wr xs) @ CHR ''}'' # [])) q =
        Some (None, st', q') \<and> rep_inv q' \<and> logical q' = xs"
    by auto
  ultimately show ?thesis by simp
qed

lemma read_bool_text:
  assumes "\<not> failbit st" "ws = [] \<or> ws = '' ''"
    "drop (pos st) (chars st) = ws @ write_bool v @ c # rest"
  shows "read_bool st = (Inr v, st\<lparr>pos := pos st + length ws + length (write_bool v)\<rparr>)"
proof -
  let ?w = "write_bool v @ c # rest"
  let ?p = "length (chars st) - length ?w"
  have sk: "dropWhile isspace (drop (pos st) (chars st)) = ?w"
    using assms(2,3) by (cases v) (auto simp: write_bool_def isspace_def)
  have "length (drop (pos st) (chars st)) = length ws + length ?w" using assms(3) by simp
  then have p: "?p = pos st + length ws" by simp
  have r: "read_bool st =
      (if take 4 ?w = ''true'' then (Inr True, st\<lparr>pos := pos st + length ws + 4\<rparr>)
       else if take 5 ?w = ''false'' then (Inr False, st\<lparr>pos := pos st + length ws + 5\<rparr>)
       else (Inr False, st\<lparr>pos := pos st + length ws, failbit := True\<rparr>))"
    using assms(1) by (simp only: read_bool_def sk Let_def if_False p)
  show ?thesis by (cases v) (simp_all add: r write_bool_def)
qed

lemma serializable_bool: "serializable read_bool write_bool"
  unfolding serializable_def
proof (intro conjI allI impI)
  fix v show "write_bool v \<noteq> []" by (simp add: write_bool_def)
  show "\<not> isspace (hd (write_bool v))" by (simp add: write_bool_def isspace_def)
  show "hd (write_bool v) \<noteq> CHR ''}''" by (simp add: write_bool_def)
next
  fix v :: bool and st :: istream and ws c rest
  assume "\<not> failbit st \<and> (ws = [] \<or> ws = '' '') \<and> (c = CHR '','' \<or> c = CHR ''}'') \<and>
          drop (pos st) (chars st) = ws @ write_bool v @ c # rest"
  then show "read_bool st = (Inr v, st\<lparr>pos := pos st + length ws + length (write_bool v)\<rparr>)"
    using read_bool_text by blast
qed

text \<open>
  Claim C7 (round trip). For a well-formed queue in the store and elements that can
  be written and read back, \<open>toString\<close> gives a text, \<open>operator >>\<close> reads that text
  into a new queue without error, and the queue read is \<open>equals\<close>-equal to the
  original, from either side. The empty queue is included. The count of the original is
  below \<open>10 * 2^27\<close>, as it is in every queue whose capacity is of type \<open>int\<close> and was
  reached from 10 by doubling; so the new queue never doubles a capacity beyond \<open>int\<close>
  while it is filled.
\<close>

theorem round_trip:
  assumes "serializable rd wr" and "p < length s" and "rep_inv (s ! p)"
    and "count (s ! p) < 10 * 2 ^ 27"
  shows "\<exists>str st' q'.
           toString wr s p = (Inr str, s) \<and>
           operator_shr rd dv (istringstream str) (Queue dv) = Some (None, st', q') \<and>
           equals (s @ [q']) p (length s) = Some (Inr True, s @ [q']) \<and>
           equals (s @ [q']) (length s) p = Some (Inr True, s @ [q'])"
proof -
  let ?txt = "spec_text wr (logical (s ! p))"
  have t: "toString wr s p = (Inr ?txt, s)" by (rule toString_ok[OF assms(2,3)])
  have "int (length (logical (s ! p))) < 10 * 2 ^ 27"
    using assms(4) count_logical[OF assms(3)] by simp
  from operator_shr_roundtrip[OF assms(1) this, of dv "Queue dv"]
  obtain st' q' where q': "operator_shr rd dv (istringstream ?txt) (Queue dv) = Some (None, st', q')"
    "rep_inv q'" "logical q' = logical (s ! p)"
    by blast
  let ?s = "s @ [q']"
  have at: "?s ! p = s ! p" "?s ! length s = q'" using assms(2) by (simp_all add: nth_append)
  have l: "p < length ?s" "length s < length ?s" using assms(2) by simp_all
  have r: "rep_inv (?s ! p)" "rep_inv (?s ! length s)" using at assms(3) q'(2) by simp_all
  have "equals ?s p (length s) = Some (Inr True, ?s)"
    using equals_ok[OF l r] at q'(3) by simp
  moreover have "equals ?s (length s) p = Some (Inr True, ?s)"
    using equals_ok[OF l(2,1) r(2,1)] at q'(3) by simp
  ultimately show ?thesis using t q'(1) by blast
qed

text \<open>
  The round trip of the queue holding \<open>True, False\<close> and of a new queue, with the
  sample formatter and reader of truth values.
\<close>

theorem round_trip_witness:
  "serializable read_bool write_bool \<and>
   0 < length two_bool_queues \<and> rep_inv (two_bool_queues ! 0) \<and>
   count (two_bool_queues ! 0) < 10 * 2 ^ 27 \<and>
   1 < length two_bool_queues \<and> rep_inv (two_bool_queues ! 1) \<and>
   count (two_bool_queues ! 1) < 10 * 2 ^ 27 \<and>
   toString write_bool two_bool_queues 0 = (Inr ''{true, false}'', two_bool_queues) \<and>
   fst (the (equals
     (two_bool_queues @
        [snd (snd (the (operator_shr read_bool False (istringstream ''{true, false}'')
                          (Queue False))))]) 0 2)) = Inr True \<and>
   toString write_bool two_bool_queues 1 = (Inr ''{}'', two_bool_queues) \<and>
   fst (the (equals
     (two_bool_queues @
        [snd (snd (the (operator_shr read_bool False (istringstream ''{}'')
                          (Queue False))))]) 1 2)) = Inr True"
proof -
  have l: "0 < length two_bool_queues" "1 < length two_bool_queues"
    by (simp_all add: two_bool_queues_def)
  have n: "length two_bool_queues = 2" by (simp add: two_bool_queues_def)
  have r: "rep_inv (two_bool_queues ! 0)" "rep_inv (two_bool_queues ! 1)"
    by code_simp+
  have c: "count (two_bool_queues ! 0) < 10 * 2 ^ 27" "count (two_bool_queues ! 1) < 10 * 2 ^ 27"
    by code_simp+
  have t: "toString write_bool two_bool_queues 0 = (Inr ''{true, false}'', two_bool_queues)"
    "toString write_bool two_bool_queues 1 = (Inr ''{}'', two_bool_queues)"
    by code_simp+
  from round_trip[OF serializable_bool l(1) r(1) c(1), of False] obtain str st' q' where a:
    "toString write_bool two_bool_queues 0 = (Inr str, two_bool_queues)"
    "operator_shr read_bool False (istringstream str) (Queue False) = Some (None, st', q')"
    "equals (two_bool_queues @ [q']) 0 (length two_bool_queues) =
       Some (Inr True, two_bool_queues @ [q'])"
    by blast
  have "str = ''{true, false}''" using a(1) t(1) by simp
  then have 1: "fst (the (equals
     (two_bool_queues @
        [snd (snd (the (operator_shr read_bool False (istringstream ''{true, false}'')
                          (Queue False))))]) 0 2)) = Inr True"
    using a(2,3) n by simp
  from round_trip[OF serializable_bool l(2) r(2) c(2), of False] obtain str st' q' where b:
    "toString write_bool two_bool_queues 1 = (Inr str, two_bool_queues)"
    "operator_shr read_bool False (istringstream str) (Queue False) = Some (None, st', q')"
    "equals (two_bool_queues @ [q']) 1 (length two_bool_queues) =
       Some (Inr True, two_bool_queues @ [q'])"
    by blast
  have "str = ''{}''" using b(1) t(2) by simp
  then have 2: "fst (the (equals
     (two_bool_queues @
        [snd (snd (the (operator_shr read_bool False (istringstream ''{}'')
                          (Queue False))))]) 1 2)) = Inr True"
    using b(2,3) n by simp
  show ?thesis by (intro conjI serializable_bool l r c t 1 2)
qed

subsection \<open>Failing parses\<close>







end
